theory Spec2Isabelle
  imports Complex_Main "HOL-Library.Word"
begin

unbundle bit_operations_syntax

section \<open>Data model\<close>

text \<open>
  An image buffer is a NumPy array of 8-bit unsigned samples whose shape is either
  \<open>(H, W)\<close> (grayscale) or \<open>(H, W, 3)\<close> (colour). The samples are kept in the
  array's own C order (row-major, channel last), which is also the order of
  \<open>flatten()\<close>. Arrays of any other rank are outside the type.
\<close>

type_synonym u8 = "8 word"

datatype shape = Gray nat nat | Color nat nat

fun height :: "shape \<Rightarrow> nat" where
  "height (Gray h w) = h"
| "height (Color h w) = h"

fun width :: "shape \<Rightarrow> nat" where
  "width (Gray h w) = w"
| "width (Color h w) = w"

fun ndim :: "shape \<Rightarrow> nat" where
  "ndim (Gray h w) = 2"
| "ndim (Color h w) = 3"

text \<open>\<open>ndarray.size\<close>: the number of samples the shape announces.\<close>

fun np_size :: "shape \<Rightarrow> nat" where
  "np_size (Gray h w) = h * w"
| "np_size (Color h w) = h * w * 3"

record ndarray =
  shape :: shape
  data :: "u8 list"

text \<open>Every NumPy array holds exactly as many samples as its shape announces.\<close>

definition valid_image :: "ndarray \<Rightarrow> bool" where
  "valid_image img = (length (data img) = np_size (shape img))"

definition flatten :: "ndarray \<Rightarrow> u8 list" where
  "flatten img = data img"

text \<open>
  Arrays are objects: a caller's variable holds a reference, and \<open>copy()\<close> allocates a
  new object. The store lists the live arrays, an address is an index into it.
\<close>

type_synonym addr = nat
type_synonym store = "ndarray list"

definition np_copy :: "store \<Rightarrow> addr \<Rightarrow> store \<times> addr" where
  "np_copy st a = (st @ [st ! a], length st)"

definition getitem2 :: "store \<Rightarrow> addr \<Rightarrow> nat \<Rightarrow> nat \<Rightarrow> u8" where
  "getitem2 st a i j = data (st ! a) ! (i * width (shape (st ! a)) + j)"

definition getitem3 :: "store \<Rightarrow> addr \<Rightarrow> nat \<Rightarrow> nat \<Rightarrow> nat \<Rightarrow> u8" where
  "getitem3 st a i j k = data (st ! a) ! ((i * width (shape (st ! a)) + j) * 3 + k)"

definition setitem2 :: "store \<Rightarrow> addr \<Rightarrow> nat \<Rightarrow> nat \<Rightarrow> u8 \<Rightarrow> store" where
  "setitem2 st a i j v =
     st[a := (st ! a)\<lparr>data := (data (st ! a))[i * width (shape (st ! a)) + j := v]\<rparr>]"

definition setitem3 :: "store \<Rightarrow> addr \<Rightarrow> nat \<Rightarrow> nat \<Rightarrow> nat \<Rightarrow> u8 \<Rightarrow> store" where
  "setitem3 st a i j k v =
     st[a := (st ! a)\<lparr>data := (data (st ! a))[(i * width (shape (st ! a)) + j) * 3 + k := v]\<rparr>]"

text \<open>
  The source raises \<open>ValueError\<close> everywhere; the constructors name the raise sites the
  way the specification does. \<open>CvError\<close> stands for an exception thrown inside OpenCV,
  \<open>AttributeError\<close> for the use of \<open>None\<close> as an array, \<open>FloatToIntError\<close> for the
  \<open>ValueError\<close> that \<open>int()\<close> raises on a float that is not a number, \<open>IndexError\<close>
  and \<open>ZeroDivisionError\<close> for Python's own.
\<close>

datatype error =
    CapacityError
  | InvalidParameterError
  | ShapeMismatchError
  | LengthMismatchError
  | UnsupportedAttackError
  | CvError
  | AttributeError
  | FloatToIntError
  | IndexError
  | ZeroDivisionError

text \<open>A Python float: a finite value (read as the real number it denotes), plus or
  minus infinity, or not-a-number. A comparison with not-a-number is false.\<close>

datatype pyfloat = Finite real | PosInf | NegInf | NaN

definition float_le :: "pyfloat \<Rightarrow> real \<Rightarrow> bool" where
  "float_le x c = (case x of Finite r \<Rightarrow> r \<le> c | PosInf \<Rightarrow> False | NegInf \<Rightarrow> True
                   | NaN \<Rightarrow> False)"

definition float_ge :: "pyfloat \<Rightarrow> real \<Rightarrow> bool" where
  "float_ge x c = (case x of Finite r \<Rightarrow> r \<ge> c | PosInf \<Rightarrow> True | NegInf \<Rightarrow> False
                   | NaN \<Rightarrow> False)"

text \<open>\<open>int(x)\<close> of a finite float: truncation towards zero.\<close>

definition py_trunc :: "real \<Rightarrow> int" where
  "py_trunc x = (if 0 \<le> x then \<lfloor>x\<rfloor> else \<lceil>x\<rceil>)"

section \<open>Payload encoding\<close>

text \<open>
  A Python \<open>str\<close> is a sequence of Unicode code points; \<open>ord\<close> gives the code point.
  The bit string \<open>binary_data\<close> is a \<open>str\<close> of the characters 0 and 1.
\<close>

type_synonym pystr = "nat list"

definition digit :: "nat \<Rightarrow> char" where
  "digit d = (if d = 0 then CHR ''0'' else CHR ''1'')"

text \<open>The binary digits of \<open>n\<close>, most significant first, no leading zero (\<open>0\<close> for 0).\<close>

fun bin_digits :: "nat \<Rightarrow> string" where
  "bin_digits n = (if n < 2 then [digit n] else bin_digits (n div 2) @ [digit (n mod 2)])"

declare bin_digits.simps [simp del]

text \<open>\<open>format(n, '08b')\<close>: the binary digits, zero-padded on the left to a width of at
  least 8. A longer digit string is left as it is.\<close>

definition format_08b :: "nat \<Rightarrow> string" where
  "format_08b n = replicate (8 - length (bin_digits n)) CHR ''0'' @ bin_digits n"

text \<open>Lines 23 and 25 of \<open>lsb.py\<close>, lines 75 and 77 of \<open>sobel_adaptive.py\<close>.\<close>

definition encode :: "pystr \<Rightarrow> string" where
  "encode secret_data = concat (map format_08b secret_data) @ ''00000000''"

text \<open>\<open>int(c)\<close> for a character of \<open>binary_data\<close>, as a sample value.\<close>

definition int_of_bit :: "char \<Rightarrow> u8" where
  "int_of_bit c = (if c = CHR ''1'' then 1 else 0)"

text \<open>\<open>str(pixel & 1)\<close>.\<close>

definition str_lsb :: "u8 \<Rightarrow> char" where
  "str_lsb pixel = (if pixel AND 1 = 1 then CHR ''1'' else CHR ''0'')"

text \<open>\<open>chr(int(byte, 2))\<close>.\<close>

definition int_base2 :: "string \<Rightarrow> nat" where
  "int_base2 byte = foldl (\<lambda>acc c. 2 * acc + (if c = CHR ''1'' then 1 else 0)) 0 byte"

text \<open>\<open>range(0, n, 8)\<close>.\<close>

definition range8 :: "nat \<Rightarrow> nat list" where
  "range8 n = map (\<lambda>q. 8 * q) [0..<(n + 7) div 8]"

text \<open>The decoding loop at the end of both \<open>extract\<close> functions: every complete group of
  eight characters becomes one character of the result.\<close>

definition decode_bytes :: "string \<Rightarrow> pystr" where
  "decode_bytes binary_data =
     concat (map (\<lambda>b. let byte = take 8 (drop b binary_data)
                       in if length byte = 8 then [int_base2 byte] else [])
                 (range8 (length binary_data)))"

text \<open>The 8-bit big-endian representation of a byte value, written from the words of
  the specification: bit 7 first, bit 0 last.\<close>

definition big_endian_8 :: "nat \<Rightarrow> string" where
  "big_endian_8 n = map (\<lambda>i. digit (n div 2 ^ (7 - i) mod 2)) [0..<8]"

text \<open>The same for any width \<open>k\<close>, for the induction on the width.\<close>

definition big_endian :: "nat \<Rightarrow> nat \<Rightarrow> string" where
  "big_endian k n = map (\<lambda>i. digit (n div 2 ^ (k - 1 - i) mod 2)) [0..<k]"

section \<open>LSBSteganography\<close>

text \<open>\<open>get_embedding_capacity\<close> (lsb.py, lines 113-128).\<close>

definition lsb_get_embedding_capacity :: "ndarray \<Rightarrow> nat" where
  "lsb_get_embedding_capacity cover_image =
     (case shape cover_image of
        Gray h w \<Rightarrow> np_size (shape cover_image) div 8
      | Color h w \<Rightarrow> (height (shape cover_image) * width (shape cover_image) * 3) div 8)"

text \<open>The innermost loop of \<open>embed\<close>, \<open>for k in range(3)\<close>: no \<open>break\<close>, the guard is
  tested for each channel.\<close>

fun embed_channels ::
  "string \<Rightarrow> addr \<Rightarrow> nat \<Rightarrow> nat \<Rightarrow> nat list \<Rightarrow> store \<times> nat \<Rightarrow> store \<times> nat" where
  "embed_channels binary_data stego i j [] (st, data_index) = (st, data_index)"
| "embed_channels binary_data stego i j (k # ks) (st, data_index) =
     (if data_index < length binary_data then
        embed_channels binary_data stego i j ks
          (setitem3 st stego i j k
             ((getitem3 st stego i j k AND 0xFE) OR int_of_bit (binary_data ! data_index)),
           data_index + 1)
      else embed_channels binary_data stego i j ks (st, data_index))"

text \<open>\<open>for j in range(width)\<close>: the \<open>else: break\<close> of lines 57-58 leaves the row.\<close>

fun embed_cols ::
  "string \<Rightarrow> addr \<Rightarrow> addr \<Rightarrow> nat \<Rightarrow> nat list \<Rightarrow> store \<times> nat \<Rightarrow> store \<times> nat" where
  "embed_cols binary_data cover stego i [] (st, data_index) = (st, data_index)"
| "embed_cols binary_data cover stego i (j # js) (st, data_index) =
     (if data_index < length binary_data then
        (case shape (st ! cover) of
           Gray h w \<Rightarrow>
             embed_cols binary_data cover stego i js
               (setitem2 st stego i j
                  ((getitem2 st stego i j AND 0xFE) OR int_of_bit (binary_data ! data_index)),
                data_index + 1)
         | Color h w \<Rightarrow>
             embed_cols binary_data cover stego i js
               (embed_channels binary_data stego i j [0..<3] (st, data_index)))
      else (st, data_index))"

text \<open>\<open>for i in range(height)\<close>, left at line 60 once all bits are written.\<close>

fun embed_rows ::
  "string \<Rightarrow> addr \<Rightarrow> addr \<Rightarrow> nat \<Rightarrow> nat list \<Rightarrow> store \<times> nat \<Rightarrow> store \<times> nat" where
  "embed_rows binary_data cover stego w [] (st, data_index) = (st, data_index)"
| "embed_rows binary_data cover stego w (i # is) (st, data_index) =
     (case embed_cols binary_data cover stego i [0..<w] (st, data_index) of
        (st', data_index') \<Rightarrow>
          if data_index' \<ge> length binary_data then (st', data_index')
          else embed_rows binary_data cover stego w is (st', data_index'))"

text \<open>\<open>LSBSteganography.embed\<close> (lsb.py, lines 12-62). The result is the new store and
  either the error raised or the address of the stego image.\<close>

definition lsb_embed :: "store \<Rightarrow> addr \<Rightarrow> pystr \<Rightarrow> store \<times> (error + addr)" where
  "lsb_embed st cover_image secret_data =
     (let binary_data = encode secret_data;
          data_len = length binary_data
      in if length (flatten (st ! cover_image)) < data_len then (st, Inl CapacityError)
         else
           (case np_copy st cover_image of
              (st1, stego_image) \<Rightarrow>
                (case embed_rows binary_data cover_image stego_image
                        (width (shape (st1 ! cover_image)))
                        [0..<height (shape (st1 ! cover_image))] (st1, 0) of
                   (st2, data_index) \<Rightarrow> (st2, Inr stego_image))))"

text \<open>\<open>binary_data[-8:]\<close> and \<open>binary_data[:-8]\<close>.\<close>

definition last8 :: "string \<Rightarrow> string" where
  "last8 s = drop (length s - 8) s"

definition butlast8 :: "string \<Rightarrow> string" where
  "butlast8 s = take (length s - 8) s"

text \<open>The loops of \<open>extract\<close> (lsb.py, lines 79-102). \<open>Inl\<close> is the value of the
  \<open>return\<close> inside the loop, \<open>Inr\<close> the bit string when the loop runs out. The
  terminator test of line 91 stands after the pixel, so after all three channels of a
  colour pixel.\<close>

fun extract_cols :: "ndarray \<Rightarrow> nat \<Rightarrow> nat list \<Rightarrow> string \<Rightarrow> pystr + string" where
  "extract_cols img i [] binary_data = Inr binary_data"
| "extract_cols img i (j # js) binary_data =
     (let binary_data1 =
            (case shape img of
               Gray h w \<Rightarrow> binary_data @ [str_lsb (data img ! (i * w + j))]
             | Color h w \<Rightarrow>
                 foldl (\<lambda>b k. b @ [str_lsb (data img ! ((i * w + j) * 3 + k))])
                   binary_data [0..<3])
      in if length binary_data1 mod 8 = 0 then
           if last8 binary_data1 = ''00000000'' then Inl (decode_bytes (butlast8 binary_data1))
           else extract_cols img i js binary_data1
         else extract_cols img i js binary_data1)"

fun extract_rows :: "ndarray \<Rightarrow> nat \<Rightarrow> nat list \<Rightarrow> string \<Rightarrow> pystr + string" where
  "extract_rows img w [] binary_data = Inr binary_data"
| "extract_rows img w (i # is) binary_data =
     (case extract_cols img i [0..<w] binary_data of
        Inl secret_data \<Rightarrow> Inl secret_data
      | Inr binary_data1 \<Rightarrow> extract_rows img w is binary_data1)"

text \<open>\<open>LSBSteganography.extract\<close> (lsb.py, lines 64-111).\<close>

definition lsb_extract :: "ndarray \<Rightarrow> pystr" where
  "lsb_extract stego_image =
     (case extract_rows stego_image (width (shape stego_image))
             [0..<height (shape stego_image)] [] of
        Inl secret_data \<Rightarrow> secret_data
      | Inr binary_data \<Rightarrow> decode_bytes binary_data)"

section \<open>SobelAdaptiveSteganography\<close>

text \<open>
  \<open>compute_sobel_gradient\<close> is a chain of OpenCV calls in floating point
  (\<open>cvtColor\<close>, \<open>Sobel\<close>, \<open>magnitude\<close>, \<open>normalize\<close>). It is a parameter \<open>G\<close> of
  the functions below: the \<open>uint8\<close> gradient map of an image, one value per pixel in
  row-major order.
\<close>

text \<open>\<open>create_embedding_mask\<close>: \<open>(gradient > threshold).astype(np.uint8)\<close>. The
  threshold is a Python integer and may be negative.\<close>

definition create_embedding_mask :: "u8 list \<Rightarrow> int \<Rightarrow> nat list" where
  "create_embedding_mask gradient threshold =
     map (\<lambda>g. if int (unat g) > threshold then 1 else 0) gradient"

text \<open>Lines 81-86 and 94-99 of \<open>sobel_adaptive.py\<close>: \<open>np.sum(mask)\<close>, times three for a
  colour image.\<close>

definition available_capacity_of :: "shape \<Rightarrow> nat list \<Rightarrow> nat" where
  "available_capacity_of shp emask =
     (case shp of Color h w \<Rightarrow> sum_list emask * 3 | Gray h w \<Rightarrow> sum_list emask)"

text \<open>The \<open>while\<close> loop of lines 91-99 on \<open>(new_threshold, mask, available_capacity)\<close>.\<close>

function relax_loop ::
  "u8 list \<Rightarrow> shape \<Rightarrow> nat \<Rightarrow> int \<times> nat list \<times> nat \<Rightarrow> int \<times> nat list \<times> nat" where
  "relax_loop gradient shp data_len (new_threshold, emask, available_capacity) =
     (if available_capacity < data_len \<and> new_threshold > 0 then
        relax_loop gradient shp data_len
          (new_threshold - 5,
           create_embedding_mask gradient (new_threshold - 5),
           available_capacity_of shp (create_embedding_mask gradient (new_threshold - 5)))
      else (new_threshold, emask, available_capacity))"
  by pat_completeness auto
termination
  by (relation "measure (\<lambda>(gradient, shp, data_len, new_threshold, emask, cap). nat new_threshold)")
    auto

declare relax_loop.simps [simp del]

text \<open>Lines 69-102 of \<open>embed\<close>: the threshold and the mask the embedding loop will
  use, or the error raised at line 102.\<close>

definition select_mask :: "u8 list \<Rightarrow> shape \<Rightarrow> nat \<Rightarrow> int \<Rightarrow> error + int \<times> nat list" where
  "select_mask gradient shp data_len threshold =
     (let emask = create_embedding_mask gradient threshold;
          available_capacity = available_capacity_of shp emask
      in if available_capacity < data_len then
           (case relax_loop gradient shp data_len (threshold, emask, available_capacity) of
              (new_threshold, emask1, available_capacity1) \<Rightarrow>
                if available_capacity1 < data_len then Inl CapacityError
                else Inr (new_threshold, emask1))
         else Inr (threshold, emask))"

text \<open>The loops of lines 112-132. The mask has the image's height and width;
  \<open>mask[i, j]\<close> is entry \<open>i * width + j\<close>.\<close>

fun sobel_embed_cols ::
  "string \<Rightarrow> nat list \<Rightarrow> addr \<Rightarrow> addr \<Rightarrow> nat \<Rightarrow> nat \<Rightarrow> nat list \<Rightarrow> store \<times> nat
     \<Rightarrow> store \<times> nat" where
  "sobel_embed_cols binary_data emask cover stego w i [] (st, data_index) = (st, data_index)"
| "sobel_embed_cols binary_data emask cover stego w i (j # js) (st, data_index) =
     (case (if data_index < length binary_data \<and> emask ! (i * w + j) = 1 then
              (case shape (st ! cover) of
                 Gray h' w' \<Rightarrow>
                   (setitem2 st stego i j
                      ((getitem2 st stego i j AND 0xFE)
                         OR int_of_bit (binary_data ! data_index)),
                    data_index + 1)
               | Color h' w' \<Rightarrow> embed_channels binary_data stego i j [0..<3] (st, data_index))
            else (st, data_index)) of
        (st', data_index') \<Rightarrow>
          if data_index' \<ge> length binary_data then (st', data_index')
          else sobel_embed_cols binary_data emask cover stego w i js (st', data_index'))"

fun sobel_embed_rows ::
  "string \<Rightarrow> nat list \<Rightarrow> addr \<Rightarrow> addr \<Rightarrow> nat \<Rightarrow> nat list \<Rightarrow> store \<times> nat \<Rightarrow> store \<times> nat" where
  "sobel_embed_rows binary_data emask cover stego w [] (st, data_index) = (st, data_index)"
| "sobel_embed_rows binary_data emask cover stego w (i # is) (st, data_index) =
     (case sobel_embed_cols binary_data emask cover stego w i [0..<w] (st, data_index) of
        (st', data_index') \<Rightarrow>
          if data_index' \<ge> length binary_data then (st', data_index')
          else sobel_embed_rows binary_data emask cover stego w is (st', data_index'))"

text \<open>\<open>SobelAdaptiveSteganography.embed\<close> (sobel_adaptive.py, lines 57-134).\<close>

definition sobel_embed ::
  "(ndarray \<Rightarrow> u8 list) \<Rightarrow> store \<Rightarrow> addr \<Rightarrow> pystr \<Rightarrow> int \<Rightarrow> store \<times> (error + addr)" where
  "sobel_embed G st cover_image secret_data threshold =
     (let gradient = G (st ! cover_image);
          binary_data = encode secret_data;
          data_len = length binary_data
      in case select_mask gradient (shape (st ! cover_image)) data_len threshold of
           Inl e \<Rightarrow> (st, Inl e)
         | Inr (new_threshold, emask) \<Rightarrow>
             (case np_copy st cover_image of
                (st1, stego_image) \<Rightarrow>
                  (case sobel_embed_rows binary_data emask cover_image stego_image
                          (width (shape (st1 ! cover_image)))
                          [0..<height (shape (st1 ! cover_image))] (st1, 0) of
                     (st2, data_index) \<Rightarrow> (st2, Inr stego_image))))"

text \<open>The loops of \<open>extract\<close> (sobel_adaptive.py, lines 158-182).\<close>

fun sobel_extract_cols ::
  "ndarray \<Rightarrow> nat list \<Rightarrow> nat \<Rightarrow> nat list \<Rightarrow> string \<Rightarrow> pystr + string" where
  "sobel_extract_cols img emask i [] binary_data = Inr binary_data"
| "sobel_extract_cols img emask i (j # js) binary_data =
     (if emask ! (i * width (shape img) + j) = 1 then
        (let binary_data1 =
               (case shape img of
                  Gray h w \<Rightarrow> binary_data @ [str_lsb (data img ! (i * w + j))]
                | Color h w \<Rightarrow>
                    foldl (\<lambda>b k. b @ [str_lsb (data img ! ((i * w + j) * 3 + k))])
                      binary_data [0..<3])
         in if length binary_data1 mod 8 = 0 \<and> length binary_data1 \<ge> 8 then
              if last8 binary_data1 = ''00000000''
              then Inl (decode_bytes (butlast8 binary_data1))
              else sobel_extract_cols img emask i js binary_data1
            else sobel_extract_cols img emask i js binary_data1)
      else sobel_extract_cols img emask i js binary_data)"

fun sobel_extract_rows ::
  "ndarray \<Rightarrow> nat list \<Rightarrow> nat \<Rightarrow> nat list \<Rightarrow> string \<Rightarrow> pystr + string" where
  "sobel_extract_rows img emask w [] binary_data = Inr binary_data"
| "sobel_extract_rows img emask w (i # is) binary_data =
     (case sobel_extract_cols img emask i [0..<w] binary_data of
        Inl secret_data \<Rightarrow> Inl secret_data
      | Inr binary_data1 \<Rightarrow> sobel_extract_rows img emask w is binary_data1)"

text \<open>\<open>SobelAdaptiveSteganography.extract\<close> (sobel_adaptive.py, lines 136-191).\<close>

definition sobel_extract :: "(ndarray \<Rightarrow> u8 list) \<Rightarrow> ndarray \<Rightarrow> int \<Rightarrow> pystr" where
  "sobel_extract G stego_image threshold =
     (let gradient = G stego_image;
          emask = create_embedding_mask gradient threshold
      in case sobel_extract_rows stego_image emask (width (shape stego_image))
                [0..<height (shape stego_image)] [] of
           Inl secret_data \<Rightarrow> secret_data
         | Inr binary_data \<Rightarrow> decode_bytes binary_data)"

text \<open>The gradient map of a uniform image: both Sobel derivatives vanish everywhere, and
  \<open>cv2.normalize\<close> with \<open>NORM_MINMAX\<close> maps a constant array to the lower bound 0.\<close>

definition uniform_gradient :: "ndarray \<Rightarrow> u8 list" where
  "uniform_gradient img = replicate (height (shape img) * width (shape img)) 0"

section \<open>AttackSimulator\<close>

text \<open>
  The operators work on arrays in the store. What OpenCV and the floating-point unit
  compute is not in the repository; it is a parameter of the operators: the samples
  that \<open>cv2.imread\<close> decodes from the JPEG file written at a quality, the samples
  that \<open>cv2.resize\<close> interpolates, and the \<open>float64\<close> product of two floats. Nothing is
  assumed about the three functions.
\<close>

record library =
  jpeg_decoded :: "int \<Rightarrow> ndarray \<Rightarrow> u8 list"
  resized :: "ndarray \<Rightarrow> nat \<Rightarrow> nat \<Rightarrow> u8 list"
  float_mul :: "real \<Rightarrow> real \<Rightarrow> real"

text \<open>
  \<open>cv2.imwrite\<close> to the temporary JPEG file followed by \<open>cv2.imread\<close> of that file
  (lines 43 and 46). \<open>imwrite\<close> raises on an empty image. The JPEG codec refuses an
  image with a side above 65500; nothing is written then and \<open>imread\<close> returns
  \<open>None\<close>. \<open>imread\<close> is called without a flag, so with \<open>IMREAD_COLOR\<close>: the decoded
  image always has three channels, also when the file holds a grayscale JPEG.
\<close>

definition cv2_imwrite_imread :: "library \<Rightarrow> int \<Rightarrow> ndarray \<Rightarrow> error + ndarray option" where
  "cv2_imwrite_imread lib quality img =
     (if height (shape img) = 0 \<or> width (shape img) = 0 then Inl CvError
      else if 65500 < height (shape img) \<or> 65500 < width (shape img) then Inr None
      else Inr (Some \<lparr>shape = Color (height (shape img)) (width (shape img)),
                      data = jpeg_decoded lib quality img\<rparr>))"

text \<open>\<open>cv2.resize(src, (width, height))\<close>: the result has the requested height and width
  and the channels of \<open>src\<close>; an empty source or target is refused.\<close>

definition cv2_resize :: "library \<Rightarrow> ndarray \<Rightarrow> nat \<times> nat \<Rightarrow> error + ndarray" where
  "cv2_resize lib src dsize =
     (if height (shape src) = 0 \<or> width (shape src) = 0 \<or> fst dsize = 0 \<or> snd dsize = 0
      then Inl CvError
      else Inr \<lparr>shape = (case shape src of Gray h w \<Rightarrow> Gray (snd dsize) (fst dsize)
                                          | Color h w \<Rightarrow> Color (snd dsize) (fst dsize)),
                data = resized lib src (fst dsize) (snd dsize)\<rparr>)"

text \<open>\<open>jpeg_compression\<close> (attack_simulator.py, lines 23-56). The arrays that OpenCV
  returns are new objects of the store; the result names the one returned. Line 49
  reads \<open>compressed_image.shape\<close>, which raises when \<open>imread\<close> gave \<open>None\<close>.\<close>

definition jpeg_compression ::
  "library \<Rightarrow> store \<Rightarrow> addr \<Rightarrow> int \<Rightarrow> store \<times> (error + addr)" where
  "jpeg_compression lib st image_in quality =
     (if quality < 1 \<or> quality > 100 then (st, Inl InvalidParameterError)
      else case cv2_imwrite_imread lib quality (st ! image_in) of
             Inl e \<Rightarrow> (st, Inl e)
           | Inr None \<Rightarrow> (st, Inl AttributeError)
           | Inr (Some compressed_image) \<Rightarrow>
               if shape compressed_image \<noteq> shape (st ! image_in) then
                 (case cv2_resize lib compressed_image
                         (width (shape (st ! image_in)), height (shape (st ! image_in))) of
                    Inl e \<Rightarrow> (st @ [compressed_image], Inl e)
                  | Inr restored \<Rightarrow>
                      (st @ [compressed_image, restored], Inr (length st + 1)))
               else (st @ [compressed_image], Inr (length st)))"

text \<open>A bound \<open>k\<close> of a Python slice over \<open>n\<close> items: a negative bound counts from the
  end, and every bound is clipped to \<open>0..n\<close>.\<close>

definition slice_bound :: "nat \<Rightarrow> int \<Rightarrow> nat" where
  "slice_bound n k = (if k < 0 then nat (max 0 (k + int n)) else min n (nat k))"

text \<open>The copy of the rows \<open>ys\<close> and columns \<open>xs\<close> of an image, channels kept.\<close>

definition np_slice :: "ndarray \<Rightarrow> nat list \<Rightarrow> nat list \<Rightarrow> ndarray" where
  "np_slice img ys xs =
     (case shape img of
        Gray h w \<Rightarrow>
          \<lparr>shape = Gray (length ys) (length xs),
           data = concat (map (\<lambda>i. map (\<lambda>j. data img ! (i * w + j)) xs) ys)\<rparr>
      | Color h w \<Rightarrow>
          \<lparr>shape = Color (length ys) (length xs),
           data = concat (map (\<lambda>i. concat (map (\<lambda>j.
                     map (\<lambda>k. data img ! ((i * w + j) * 3 + k)) [0..<3]) xs)) ys)\<rparr>)"

text \<open>\<open>crop_attack\<close> (attack_simulator.py, lines 77-107). Of the floats that are not
  finite only not-a-number passes the test of line 88; \<open>int(height * crop_ratio)\<close> then
  raises. For a finite ratio the product is the \<open>float64\<close> product of the height, as a
  float, and the ratio, and \<open>int\<close> truncates it. \<open>//\<close> is the floor division.\<close>

definition crop_attack ::
  "library \<Rightarrow> store \<Rightarrow> addr \<Rightarrow> pyfloat \<Rightarrow> store \<times> (error + addr)" where
  "crop_attack lib st image_in crop_ratio =
     (if float_le crop_ratio 0 \<or> float_ge crop_ratio 1 then (st, Inl InvalidParameterError)
      else
        (case crop_ratio of
           Finite r \<Rightarrow>
             (let h = height (shape (st ! image_in));
                  w = width (shape (st ! image_in));
                  crop_height = py_trunc (float_mul lib (real h) r);
                  crop_width = py_trunc (float_mul lib (real w) r);
                  start_y = (int h - crop_height) div 2;
                  start_x = (int w - crop_width) div 2;
                  cropped_image =
                    np_slice (st ! image_in)
                      [slice_bound h start_y..<slice_bound h (start_y + crop_height)]
                      [slice_bound w start_x..<slice_bound w (start_x + crop_width)]
              in case cv2_resize lib cropped_image (w, h) of
                   Inl e \<Rightarrow> (st @ [cropped_image], Inl e)
                 | Inr restored_image \<Rightarrow>
                     (st @ [cropped_image, restored_image], Inr (length st + 1)))
         | _ \<Rightarrow> (st, Inl FloatToIntError)))"

section \<open>Metrics\<close>

text \<open>\<open>np.mean\<close> of an array of floats; \<open>None\<close> stands for the not-a-number that
  NumPy returns for an array with no element.\<close>

definition np_mean :: "real list \<Rightarrow> real option" where
  "np_mean xs = (if xs = [] then None else Some (sum_list xs / real (length xs)))"

text \<open>\<open>calculate_psnr\<close> (metrics.py, lines 6-34). Both arrays are \<open>uint8\<close>, so the
  conversions of lines 21-24 do nothing. The squared differences are integers below
  \<open>2 ^ 16\<close>, which \<open>float64\<close> adds without rounding, so the test \<open>mse == 0\<close> is the
  test on the exact mean.\<close>

definition calculate_psnr :: "ndarray \<Rightarrow> ndarray \<Rightarrow> error + pyfloat" where
  "calculate_psnr original modified =
     (if shape original \<noteq> shape modified then Inl ShapeMismatchError
      else
        (case np_mean (map2 (\<lambda>a b. (real (unat a) - real (unat b)) ^ 2)
                         (data original) (data modified)) of
           Some mse \<Rightarrow>
             if mse = 0 then Inr PosInf
             else Inr (Finite (20 * log 10 (255 / sqrt mse)))
         | None \<Rightarrow> Inr NaN))"

text \<open>Python indexing \<open>s[i]\<close> with a non-negative index, and the division \<open>a / b\<close> of
  two integers.\<close>

definition py_index :: "'a list \<Rightarrow> nat \<Rightarrow> error + 'a" where
  "py_index xs i = (if i < length xs then Inr (xs ! i) else Inl IndexError)"

definition py_truediv :: "nat \<Rightarrow> nat \<Rightarrow> error + real" where
  "py_truediv a b = (if b = 0 then Inl ZeroDivisionError else Inr (real a / real b))"

text \<open>Line 166 of \<open>metrics.py\<close>:
  \<open>sum(1 for i in range(min_length) if original_text[i] != extracted_text[i])\<close>.\<close>

fun count_errors :: "pystr \<Rightarrow> pystr \<Rightarrow> nat list \<Rightarrow> error + nat" where
  "count_errors original_text extracted_text [] = Inr 0"
| "count_errors original_text extracted_text (i # is) =
     (case py_index original_text i of
        Inl e \<Rightarrow> Inl e
      | Inr a \<Rightarrow>
          (case py_index extracted_text i of
             Inl e \<Rightarrow> Inl e
           | Inr b \<Rightarrow>
               (case count_errors original_text extracted_text is of
                  Inl e \<Rightarrow> Inl e
                | Inr n \<Rightarrow> Inr ((if a \<noteq> b then 1 else 0) + n))))"

text \<open>\<open>calculate_ber_text\<close> (metrics.py, lines 138-174). An argument is \<open>None\<close> or a
  string.\<close>

definition calculate_ber_text :: "pystr option \<Rightarrow> pystr option \<Rightarrow> error + real" where
  "calculate_ber_text original extracted =
     (case (original, extracted) of
        (Some original_text, Some extracted_text) \<Rightarrow>
          (let min_length = min (length original_text) (length extracted_text)
           in if min_length = 0 then Inr 1
              else
                (case count_errors original_text extracted_text [0..<min_length] of
                   Inl e \<Rightarrow> Inl e
                 | Inr error_count \<Rightarrow>
                     py_truediv
                       (if length original_text > min_length
                        then error_count + (length original_text - min_length)
                        else error_count)
                       (length original_text)))
      | _ \<Rightarrow> Inr 1)"

section \<open>What embedding may change\<close>

text \<open>A stego sample next to the cover sample it replaces: the bits above the lowest
  one agree, so the two values differ by at most 1.\<close>

definition near_sample :: "u8 \<Rightarrow> u8 \<Rightarrow> bool" where
  "near_sample c s = (drop_bit 1 s = drop_bit 1 c \<and> unat s \<le> unat c + 1 \<and> unat c \<le> unat s + 1)"

text \<open>A stego image next to its cover: the same shape, and every sample near the
  cover's sample at the same place.\<close>

definition lsb_only :: "ndarray \<Rightarrow> ndarray \<Rightarrow> bool" where
  "lsb_only cover stego =
     (shape stego = shape cover \<and> list_all2 near_sample (data cover) (data stego))"

text \<open>The invariant of the embedding loops: the store is the store after the copy,
  but for the array at the stego address, which is still near the cover.\<close>

definition stego_inv :: "store \<Rightarrow> addr \<Rightarrow> ndarray \<Rightarrow> store \<Rightarrow> bool" where
  "stego_inv st1 stego cover_val st = (\<exists>x. st = st1[stego := x] \<and> lsb_only cover_val x)"

text \<open>An image with the same value at every sample.\<close>

definition uniform_image :: "shape \<Rightarrow> u8 \<Rightarrow> ndarray" where
  "uniform_image shp v = \<lparr>shape = shp, data = replicate (np_size shp) v\<rparr>"

section \<open>The loops on a grayscale image, in flat order\<close>

text \<open>The terminator scan of \<open>extract\<close> over the low bits in flat order.\<close>

fun scan_bits :: "string \<Rightarrow> string \<Rightarrow> pystr + string" where
  "scan_bits [] binary_data = Inr binary_data"
| "scan_bits (c # cs) binary_data =
     (let binary_data1 = binary_data @ [c]
      in if length binary_data1 mod 8 = 0 then
           if last8 binary_data1 = ''00000000'' then Inl (decode_bytes (butlast8 binary_data1))
           else scan_bits cs binary_data1
         else scan_bits cs binary_data1)"

text \<open>The samples \<open>xs\<close> once the first \<open>m\<close> bits of \<open>bd\<close> are written into them.\<close>

definition written :: "string \<Rightarrow> u8 list \<Rightarrow> nat \<Rightarrow> u8 list" where
  "written bd xs m =
     map (\<lambda>idx. if idx < m then (xs ! idx AND 0xFE) OR int_of_bit (bd ! idx) else xs ! idx)
       [0..<length xs]"

text \<open>The state of the embedding loops on a grayscale image of shape \<open>(h, w)\<close>
  when the loops have passed \<open>m\<close> pixels: the store and \<open>data_index\<close>.\<close>

definition gray_state ::
  "store \<Rightarrow> addr \<Rightarrow> nat \<Rightarrow> nat \<Rightarrow> string \<Rightarrow> u8 list \<Rightarrow> nat \<Rightarrow> store \<times> nat" where
  "gray_state st1 stego h w bd xs m =
     (st1[stego := \<lparr>shape = Gray h w, data = written bd xs (min m (length bd))\<rparr>],
      min m (length bd))"

section \<open>Capacity\<close>

text \<open>
  C9. \<open>get_embedding_capacity\<close> of a colour image of shape \<open>(H, W, 3)\<close> is
  \<open>(H * W * 3) // 8\<close>, and of a grayscale image of shape \<open>(H, W)\<close> it is
  \<open>(H * W) // 8\<close>, whatever the samples are.
\<close>

theorem lsb_capacity_exact:
  "lsb_get_embedding_capacity \<lparr>shape = Color h w, data = d\<rparr> = (h * w * 3) div 8
   \<and> lsb_get_embedding_capacity \<lparr>shape = Gray h w, data = d\<rparr> = (h * w) div 8"
  by (simp add: lsb_get_embedding_capacity_def)

section \<open>Payload encoding: what the bit string is\<close>

lemma bin_digits_small: "n < 2 \<Longrightarrow> bin_digits n = [digit n]"
  by (subst bin_digits.simps) simp

lemma bin_digits_step: "2 \<le> n \<Longrightarrow> bin_digits n = bin_digits (n div 2) @ [digit (n mod 2)]"
  by (subst bin_digits.simps) simp

lemma length_bin_digits_le: "n < 2 ^ Suc k \<Longrightarrow> length (bin_digits n) \<le> Suc k"
proof (induction k arbitrary: n)
  case 0
  then show ?case by (simp add: bin_digits_small)
next
  case (Suc k)
  show ?case
  proof (cases "n < 2")
    case True
    then show ?thesis by (simp add: bin_digits_small)
  next
    case False
    from Suc.prems have "n div 2 < 2 ^ Suc k" by simp
    from Suc.IH [OF this] False show ?thesis by (simp add: bin_digits_step)
  qed
qed

lemma length_bin_digits_ge: "2 ^ k \<le> n \<Longrightarrow> Suc k \<le> length (bin_digits n)"
proof (induction k arbitrary: n)
  case 0
  then show ?case by (subst bin_digits.simps) simp
next
  case (Suc k)
  have "(2::nat) * 1 \<le> 2 * 2 ^ k" by (intro mult_le_mono2) simp
  also have "\<dots> \<le> n" using Suc.prems by simp
  finally have "2 \<le> n" by simp
  from Suc.prems have "2 ^ k \<le> n div 2" by simp
  with Suc.IH [of "n div 2"] \<open>2 \<le> n\<close> show ?case by (simp add: bin_digits_step)
qed

lemma big_endian_Suc:
  "big_endian (Suc (Suc k)) n = big_endian (Suc k) (n div 2) @ [digit (n mod 2)]"
  by (simp add: big_endian_def div_mult2_eq Suc_diff_le)

lemma pad_big_endian:
  "n < 2 ^ Suc k \<Longrightarrow>
   replicate (Suc k - length (bin_digits n)) CHR ''0'' @ bin_digits n = big_endian (Suc k) n"
proof (induction k arbitrary: n)
  case 0
  then show ?case by (simp add: bin_digits_small big_endian_def)
next
  case (Suc k)
  show ?case
  proof (cases "n < 2")
    case True
    have "big_endian (Suc k) 0 = replicate (Suc k) CHR ''0''"
      by (simp add: big_endian_def digit_def map_replicate_const flip: replicate_append_same)
    with True show ?thesis by (simp add: bin_digits_small big_endian_Suc replicate_append_same)
  next
    case False
    from Suc.prems have lt: "n div 2 < 2 ^ Suc k" by simp
    from Suc.IH [OF lt] False show ?thesis
      by (simp add: bin_digits_step big_endian_Suc)
  qed
qed

lemma format_08b_byte: "n \<le> 255 \<Longrightarrow> format_08b n = big_endian_8 n"
  using pad_big_endian [of n 7] by (simp add: format_08b_def big_endian_8_def big_endian_def)

lemma length_format_08b: "length (format_08b n) = max 8 (length (bin_digits n))"
  by (simp add: format_08b_def)

lemma length_format_08b_wide: "256 \<le> n \<Longrightarrow> 9 \<le> length (format_08b n)"
  using length_bin_digits_ge [of 8 n] by (simp add: length_format_08b)

lemma length_big_endian_8: "length (big_endian_8 n) = 8"
  by (simp add: big_endian_8_def)

lemma length_concat_format_ge: "8 * length s \<le> length (concat (map format_08b s))"
  by (induction s) (simp_all add: length_format_08b)

lemma length_concat_format_wide:
  "\<not> list_all (\<lambda>c. c \<le> 255) s \<Longrightarrow> 8 * length s < length (concat (map format_08b s))"
proof (induction s)
  case Nil
  then show ?case by simp
next
  case (Cons c s)
  show ?case
  proof (cases "c \<le> 255")
    case True
    with Cons show ?thesis by (simp add: length_format_08b)
  next
    case False
    then have "9 \<le> length (format_08b c)" by (simp add: length_format_08b_wide)
    with length_concat_format_ge [of s] show ?thesis by simp
  qed
qed

lemma concat_format_bytes:
  "list_all (\<lambda>c. c \<le> 255) s \<Longrightarrow> concat (map format_08b s) = concat (map big_endian_8 s)"
  by (induction s) (simp_all add: format_08b_byte)

lemma length_concat_big_endian_8: "length (concat (map big_endian_8 s)) = 8 * length s"
  by (induction s) (simp_all add: length_big_endian_8)

text \<open>
  For a payload whose code points are all at most 255, the encoding is the 8-bit
  big-endian representation of each character in payload order, followed by eight zero
  bits, and it is \<open>8 * (len + 1)\<close> bits long. A payload that holds a character above
  255 is encoded in more bits than that.
\<close>

lemma encode_byte_payload:
  "(list_all (\<lambda>c. c \<le> 255) secret_data \<longrightarrow>
      encode secret_data = concat (map big_endian_8 secret_data) @ replicate 8 CHR ''0''
      \<and> length (encode secret_data) = 8 * (length secret_data + 1))
   \<and> (\<not> list_all (\<lambda>c. c \<le> 255) secret_data \<longrightarrow>
      8 * (length secret_data + 1) < length (encode secret_data))"
proof (intro conjI impI)
  assume b: "list_all (\<lambda>c. c \<le> 255) secret_data"
  have z: "''00000000'' = replicate 8 CHR ''0''"
    by (simp add: numeral_eq_Suc)
  show "encode secret_data = concat (map big_endian_8 secret_data) @ replicate 8 CHR ''0''"
    unfolding encode_def z by (simp add: concat_format_bytes [OF b])
  show "length (encode secret_data) = 8 * (length secret_data + 1)"
    by (simp add: encode_def concat_format_bytes [OF b] length_concat_big_endian_8)
next
  assume "\<not> list_all (\<lambda>c. c \<le> 255) secret_data"
  from length_concat_format_wide [OF this]
  show "8 * (length secret_data + 1) < length (encode secret_data)"
    by (simp add: encode_def)
qed

lemma encode_byte_payload_example:
  "encode [72, 105] = ''010010000110100100000000''
   \<and> length (encode [72, 105]) = 24
   \<and> 16 < length (encode [256])"
proof -
  have e: "concat (map big_endian_8 [72, 105]) @ replicate 8 CHR ''0''
             = ''010010000110100100000000''"
    by code_simp
  show ?thesis
    using encode_byte_payload [of "[72, 105]"] encode_byte_payload [of "[256]"]
    unfolding e by simp
qed

text \<open>
  C3 fails for a character above 255. The format \<open>'08b'\<close>, the 8-bit terminator and
  the 8-bit groups of the decoding loop frame the payload in bytes, but \<open>format\<close> pads
  and never truncates: the character with code point 256 is written in 9 bits, and the
  one-character payload in 17 bits, not 16. The framing is lost from there on: on an 8
  by 8 grayscale image the payload of code points 65, 256, 66 is embedded and extracted
  as 65, 128, 33.
\<close>

theorem encode_wide_character_not_truncated:
  "encode [256] = ''10000000000000000''
   \<and> length (encode [256]) \<noteq> 8 * (length [256 :: nat] + 1)
   \<and> snd (lsb_embed [uniform_image (Gray 8 8) 128] 0 [65, 256, 66]) = Inr 1
   \<and> lsb_extract (fst (lsb_embed [uniform_image (Gray 8 8) 128] 0 [65, 256, 66]) ! 1)
       = [65, 128, 33]"
  by code_simp


section \<open>Attacks: parameter validation and shapes\<close>

lemma jpeg_compression_invalid:
  "quality < 1 \<or> quality > 100 \<Longrightarrow>
   jpeg_compression lib st image_in quality = (st, Inl InvalidParameterError)"
  by (simp add: jpeg_compression_def)

lemma jpeg_compression_valid:
  "\<not> (quality < 1 \<or> quality > 100) \<Longrightarrow>
   snd (jpeg_compression lib st image_in quality) \<noteq> Inl InvalidParameterError"
  by (auto simp: jpeg_compression_def cv2_imwrite_imread_def cv2_resize_def
      split: sum.splits option.splits if_splits)

lemma crop_attack_invalid:
  "float_le crop_ratio 0 \<or> float_ge crop_ratio 1 \<Longrightarrow>
   crop_attack lib st image_in crop_ratio = (st, Inl InvalidParameterError)"
  by (simp add: crop_attack_def)

lemma crop_attack_valid:
  "\<not> (float_le crop_ratio 0 \<or> float_ge crop_ratio 1) \<Longrightarrow>
   snd (crop_attack lib st image_in crop_ratio) \<noteq> Inl InvalidParameterError"
  by (auto simp: crop_attack_def cv2_resize_def Let_def
      split: sum.splits pyfloat.splits if_splits)

text \<open>
  C6. \<open>jpeg_compression\<close> raises the parameter error exactly when the quality is
  below 1 or above 100, in particular for 0 and 101; \<open>crop_attack\<close> raises it exactly
  when the ratio is at most 0 or at least 1, in particular for 0 and 1. Whenever one of
  them raises it, the store is the store of the call: no array has been made and the
  input image holds the samples it held.
\<close>

theorem attack_parameter_validation:
  "(snd (jpeg_compression lib st image_in quality) = Inl InvalidParameterError
      \<longleftrightarrow> quality < 1 \<or> quality > 100)
   \<and> (jpeg_compression lib st image_in quality = (st, Inl InvalidParameterError)
      \<longleftrightarrow> quality < 1 \<or> quality > 100)
   \<and> (snd (crop_attack lib st image_in crop_ratio) = Inl InvalidParameterError
      \<longleftrightarrow> float_le crop_ratio 0 \<or> float_ge crop_ratio 1)
   \<and> (crop_attack lib st image_in crop_ratio = (st, Inl InvalidParameterError)
      \<longleftrightarrow> float_le crop_ratio 0 \<or> float_ge crop_ratio 1)
   \<and> jpeg_compression lib st image_in 0 = (st, Inl InvalidParameterError)
   \<and> jpeg_compression lib st image_in 101 = (st, Inl InvalidParameterError)
   \<and> crop_attack lib st image_in (Finite 0) = (st, Inl InvalidParameterError)
   \<and> crop_attack lib st image_in (Finite 1) = (st, Inl InvalidParameterError)"
proof -
  have j: "snd (jpeg_compression lib st image_in quality) = Inl InvalidParameterError
             \<longleftrightarrow> quality < 1 \<or> quality > 100"
    using jpeg_compression_invalid [of quality lib st image_in]
      jpeg_compression_valid [of quality lib st image_in]
    by (cases "quality < 1 \<or> quality > 100") simp_all
  have c: "snd (crop_attack lib st image_in crop_ratio) = Inl InvalidParameterError
             \<longleftrightarrow> float_le crop_ratio 0 \<or> float_ge crop_ratio 1"
    using crop_attack_invalid [of crop_ratio lib st image_in]
      crop_attack_valid [of crop_ratio lib st image_in]
    by (cases "float_le crop_ratio 0 \<or> float_ge crop_ratio 1") simp_all
  have j': "jpeg_compression lib st image_in quality = (st, Inl InvalidParameterError)
              \<longleftrightarrow> quality < 1 \<or> quality > 100"
    using j jpeg_compression_invalid [of quality lib st image_in] by (metis snd_conv)
  have c': "crop_attack lib st image_in crop_ratio = (st, Inl InvalidParameterError)
              \<longleftrightarrow> float_le crop_ratio 0 \<or> float_ge crop_ratio 1"
    using c crop_attack_invalid [of crop_ratio lib st image_in] by (metis snd_conv)
  show ?thesis
    using j j' c c'
    by (simp add: jpeg_compression_invalid crop_attack_invalid float_le_def float_ge_def)
qed

text \<open>
  C2 fails for \<open>jpeg_compression\<close> on a grayscale image: the file is read back with
  three channels, the shapes differ, and \<open>cv2.resize\<close> restores height and width
  only. A \<open>(2, 2)\<close> image, whatever its samples and whatever the codec decodes, comes
  back as a new array of shape \<open>(2, 2, 3)\<close>.
\<close>

theorem jpeg_compression_gray_gains_channels:
  "snd (jpeg_compression lib (st @ [\<lparr>shape = Gray 2 2, data = d\<rparr>]) (length st) 75)
     = Inr (length st + 2)
   \<and> shape (fst (jpeg_compression lib (st @ [\<lparr>shape = Gray 2 2, data = d\<rparr>]) (length st) 75)
              ! (length st + 2)) = Color 2 2"
  by (simp add: jpeg_compression_def cv2_imwrite_imread_def cv2_resize_def nth_append)

text \<open>A colour image with sides between 1 and 65500 keeps its shape under
  \<open>jpeg_compression\<close>, and any image keeps its shape under \<open>crop_attack\<close> when the
  operator returns. Neither operator changes an array of the caller's store.\<close>

lemma jpeg_compression_color_shape:
  assumes "1 \<le> quality" "quality \<le> 100" "image_in < length st"
    and "shape (st ! image_in) = Color h w" "0 < h" "h \<le> 65500" "0 < w" "w \<le> 65500"
  shows "snd (jpeg_compression lib st image_in quality) = Inr (length st)
         \<and> shape (fst (jpeg_compression lib st image_in quality) ! length st) = Color h w"
  using assms by (simp add: jpeg_compression_def cv2_imwrite_imread_def)

lemma crop_attack_shape:
  assumes "image_in < length st" "crop_attack lib st image_in crop_ratio = (st', Inr a)"
  shows "shape (st' ! a) = shape (st ! image_in)"
  using assms
  by (cases "shape (st ! image_in)")
    (auto simp: crop_attack_def cv2_resize_def np_slice_def Let_def nth_append
      split: if_splits pyfloat.splits sum.splits)

lemma attacks_keep_store:
  "take (length st) (fst (jpeg_compression lib st image_in quality)) = st
   \<and> take (length st) (fst (crop_attack lib st image_in crop_ratio)) = st"
  by (auto simp: jpeg_compression_def crop_attack_def Let_def
      split: sum.splits option.splits pyfloat.splits)

section \<open>Metrics: the text error rate\<close>

lemma count_errors_in_range:
  "list_all (\<lambda>i. i < length a \<and> i < length b) is \<Longrightarrow>
   count_errors a b is = Inr (length (filter (\<lambda>i. a ! i \<noteq> b ! i) is))"
  by (induction "is") (simp_all add: py_index_def)

lemma zip_nth_upt: "zip a b = map (\<lambda>i. (a ! i, b ! i)) [0..<min (length a) (length b)]"
  by (rule nth_equalityI) simp_all

lemma mismatches_zip:
  "length (filter (\<lambda>i. a ! i \<noteq> b ! i) [0..<min (length a) (length b)])
     = length (filter (\<lambda>(x, y). x \<noteq> y) (zip a b))"
  by (subst zip_nth_upt) (simp add: filter_map comp_def)

lemma count_errors_zip:
  "count_errors a b [0..<min (length a) (length b)]
     = Inr (length (filter (\<lambda>(x, y). x \<noteq> y) (zip a b)))"
proof -
  have "list_all (\<lambda>i. i < length a \<and> i < length b) [0..<min (length a) (length b)]"
    by (simp add: list_all_iff)
  from count_errors_in_range [OF this] show ?thesis by (simp add: mismatches_zip)
qed

lemma ber_text_strings:
  "a \<noteq> [] \<Longrightarrow> b \<noteq> [] \<Longrightarrow>
   calculate_ber_text (Some a) (Some b)
     = Inr (real (length (filter (\<lambda>(x, y). x \<noteq> y) (zip a b)) + (length a - length b))
            / real (length a))"
proof -
  assume ne: "a \<noteq> []" "b \<noteq> []"
  let ?m = "min (length a) (length b)"
  let ?n = "length (filter (\<lambda>(x, y). x \<noteq> y) (zip a b))"
  have m: "(?m = 0) = False" using ne by (simp add: min_def)
  have "calculate_ber_text (Some a) (Some b)
          = py_truediv (if length a > ?m then ?n + (length a - ?m) else ?n) (length a)"
    unfolding calculate_ber_text_def Let_def by (simp add: m count_errors_zip)
  also have "(if length a > ?m then ?n + (length a - ?m) else ?n) = ?n + (length a - length b)"
    by (simp add: min_def)
  finally show ?thesis using ne by (simp add: py_truediv_def)
qed

lemma mismatches_le: "length (filter P (zip a b)) + (length a - length b) \<le> length a"
proof -
  have "length (filter P (zip a b)) \<le> min (length a) (length b)"
    using length_filter_le [of P "zip a b"] by simp
  then show ?thesis by (simp add: min_def split: if_splits)
qed

text \<open>
  C8, as amended. \<open>calculate_ber_text\<close> returns 1.0 when either text is \<open>None\<close> or
  empty. For two non-empty strings it counts the positions, over the shorter length,
  where the two differ, adds the excess length of the original text when that is the
  longer one (an excess of the extracted text is not counted), and divides by the
  length of the original. It raises for no pair of arguments, and its value lies
  between 0 and 1.
\<close>

theorem ber_text_total_and_bounded:
  "(original = None \<or> extracted = None \<or> original = Some [] \<or> extracted = Some []
      \<longrightarrow> calculate_ber_text original extracted = Inr 1)
   \<and> (\<forall>a b. original = Some a \<and> extracted = Some b \<and> a \<noteq> [] \<and> b \<noteq> [] \<longrightarrow>
         calculate_ber_text original extracted
           = Inr (real (length (filter (\<lambda>(x, y). x \<noteq> y) (zip a b)) + (length a - length b))
                  / real (length a)))
   \<and> (\<exists>r. calculate_ber_text original extracted = Inr r \<and> 0 \<le> r \<and> r \<le> 1)"
proof (intro conjI impI allI)
  assume "original = None \<or> extracted = None \<or> original = Some [] \<or> extracted = Some []"
  then show "calculate_ber_text original extracted = Inr 1"
    by (auto simp: calculate_ber_text_def split: option.splits)
next
  fix a b
  assume "original = Some a \<and> extracted = Some b \<and> a \<noteq> [] \<and> b \<noteq> []"
  then show "calculate_ber_text original extracted
           = Inr (real (length (filter (\<lambda>(x, y). x \<noteq> y) (zip a b)) + (length a - length b))
                  / real (length a))"
    by (simp add: ber_text_strings)
next
  show "\<exists>r. calculate_ber_text original extracted = Inr r \<and> 0 \<le> r \<and> r \<le> 1"
  proof (cases "\<exists>a b. original = Some a \<and> extracted = Some b \<and> a \<noteq> [] \<and> b \<noteq> []")
    case True
    then obtain a b where ab: "original = Some a" "extracted = Some b" "a \<noteq> []" "b \<noteq> []"
      by blast
    let ?n = "length (filter (\<lambda>(x, y). x \<noteq> y) (zip a b)) + (length a - length b)"
    have "?n \<le> length a" by (rule mismatches_le)
    then have "real ?n / real (length a) \<le> 1" using ab(3) by simp
    moreover have "0 \<le> real ?n / real (length a)" by simp
    ultimately show ?thesis unfolding ab(1,2) ber_text_strings [OF ab(3,4)] by blast
  next
    case False
    then have "calculate_ber_text original extracted = Inr 1"
      by (auto simp: calculate_ber_text_def split: option.splits)
    then show ?thesis by simp
  qed
qed

theorem ber_text_witness:
  "calculate_ber_text None (Some [97]) = Inr 1
   \<and> calculate_ber_text (Some [97, 98, 99, 100]) (Some [97, 120]) = Inr (3 / 4)
   \<and> (\<exists>r. calculate_ber_text (Some [97, 98]) (Some [97, 98, 99]) = Inr r \<and> 0 \<le> r \<and> r \<le> 1)"
  using ber_text_total_and_bounded [of None "Some [97]"]
    ber_text_total_and_bounded [of "Some [97, 98, 99, 100]" "Some [97, 120]"]
    ber_text_total_and_bounded [of "Some [97, 98]" "Some [97, 98, 99]"]
  by simp


text \<open>C8 as stated fails when the extracted text is the longer one: its excess is not
  counted. The original \<open>ab\<close> against the extracted \<open>abxyz\<close> gives 0, not the
  \<open>(0 + 3) / 2\<close> that counting the three extra characters would give.\<close>

theorem ber_text_longer_extracted_counterexample:
  "calculate_ber_text (Some [97, 98]) (Some [97, 98, 120, 121, 122]) = Inr 0
   \<and> calculate_ber_text (Some [97, 98]) (Some [97, 98, 120, 121, 122])
       \<noteq> Inr (real (0 + (length [97, 98, 120, 121, 122 :: nat] - length [97, 98 :: nat]))
              / real (length [97, 98 :: nat]))"
  by (simp add: ber_text_strings)

section \<open>Metrics: the signal-to-noise ratio\<close>

lemma sq_zero: "(real (unat a) - real (unat b)) ^ 2 = 0 \<longleftrightarrow> a = b" for a b :: u8
proof -
  have "real (unat a) = real (unat b) \<longleftrightarrow> a = b"
    by (simp only: of_nat_eq_iff word_unat_eq_iff)
  then show ?thesis by (simp only: zero_eq_power2 right_minus_eq power_eq_0_iff) simp
qed

lemma squared_differences_zero:
  "sum_list (map2 (\<lambda>a b. (real (unat a) - real (unat b)) ^ 2) xs ys) = 0
     \<longleftrightarrow> (\<forall>(a, b) \<in> set (zip xs ys). a = b)"
  for xs ys :: "u8 list"
proof -
  have "sum_list (map2 (\<lambda>a b. (real (unat a) - real (unat b)) ^ 2) xs ys) = 0
          \<longleftrightarrow> (\<forall>x \<in> set (map2 (\<lambda>a b. (real (unat a) - real (unat b)) ^ 2) xs ys). x = 0)"
    by (rule sum_list_nonneg_eq_0_iff) auto
  also have "\<dots> \<longleftrightarrow> (\<forall>(a, b) \<in> set (zip xs ys). a = b)"
    using sq_zero by fastforce
  finally show ?thesis .
qed

lemma psnr_same_shape:
  assumes "valid_image original" "valid_image modified" "shape original = shape modified"
    and "0 < np_size (shape original)"
  shows "calculate_psnr original modified = Inr PosInf \<longleftrightarrow> data original = data modified"
proof -
  let ?sq = "map2 (\<lambda>a b. (real (unat a) - real (unat b)) ^ 2) (data original) (data modified)"
  from assms have len: "length (data original) = length (data modified)"
    and pos: "0 < length (data original)"
    by (simp_all add: valid_image_def)
  then have ne: "?sq \<noteq> []" by auto
  have "calculate_psnr original modified = Inr PosInf \<longleftrightarrow> sum_list ?sq = 0"
    using assms(3) ne len pos by (simp add: calculate_psnr_def np_mean_def)
  also have "\<dots> \<longleftrightarrow> data original = data modified"
    using len unfolding squared_differences_zero by (simp add: list_eq_iff_zip_eq)
  finally show ?thesis .
qed

text \<open>
  C7, as amended. For two images of the same shape that hold at least one sample,
  \<open>calculate_psnr\<close> returns plus infinity exactly when the two agree at every sample;
  in particular for an image that has a sample and itself. It raises the shape error
  whenever the shapes differ.
\<close>

theorem psnr_infinite_iff_equal:
  "(valid_image original \<and> valid_image modified \<and> shape original = shape modified
      \<and> 0 < np_size (shape original)
      \<longrightarrow> (calculate_psnr original modified = Inr PosInf
            \<longleftrightarrow> data original = data modified))
   \<and> (valid_image original \<and> 0 < np_size (shape original)
      \<longrightarrow> calculate_psnr original original = Inr PosInf)
   \<and> (shape original \<noteq> shape modified
      \<longrightarrow> calculate_psnr original modified = Inl ShapeMismatchError)"
  using psnr_same_shape [of original modified] psnr_same_shape [of original original]
  by (auto simp: calculate_psnr_def)

theorem psnr_infinite_iff_equal_witness:
  "calculate_psnr \<lparr>shape = Gray 1 2, data = [7, 9]\<rparr> \<lparr>shape = Gray 1 2, data = [7, 9]\<rparr>
     = Inr PosInf
   \<and> calculate_psnr \<lparr>shape = Gray 1 2, data = [7, 9]\<rparr> \<lparr>shape = Gray 1 2, data = [7, 8]\<rparr>
     \<noteq> Inr PosInf
   \<and> calculate_psnr \<lparr>shape = Gray 1 2, data = [7, 9]\<rparr> \<lparr>shape = Color 1 2, data = [7, 9, 1, 1, 1, 1]\<rparr>
     = Inl ShapeMismatchError"
  using psnr_infinite_iff_equal
          [of "\<lparr>shape = Gray 1 2, data = [7, 9]\<rparr>" "\<lparr>shape = Gray 1 2, data = [7, 9]\<rparr>"]
        psnr_infinite_iff_equal
          [of "\<lparr>shape = Gray 1 2, data = [7, 9]\<rparr>" "\<lparr>shape = Gray 1 2, data = [7, 8]\<rparr>"]
        psnr_infinite_iff_equal
          [of "\<lparr>shape = Gray 1 2, data = [7, 9]\<rparr>" "\<lparr>shape = Color 1 2, data = [7, 9, 1, 1, 1, 1]\<rparr>"]
  by (simp add: valid_image_def)

text \<open>C7 as stated fails for an image without samples: the mean of no values is
  not-a-number, the test \<open>mse == 0\<close> is false, and the result is not-a-number.\<close>

theorem psnr_empty_image_counterexample:
  "valid_image \<lparr>shape = Gray 0 0, data = []\<rparr>
   \<and> calculate_psnr \<lparr>shape = Gray 0 0, data = []\<rparr> \<lparr>shape = Gray 0 0, data = []\<rparr> = Inr NaN
   \<and> calculate_psnr \<lparr>shape = Gray 0 0, data = []\<rparr> \<lparr>shape = Gray 0 0, data = []\<rparr> \<noteq> Inr PosInf"
  by (simp add: valid_image_def calculate_psnr_def np_mean_def)


section \<open>Embedding: the frame\<close>

lemma m127: "(127 :: u8) = mask 7"
  by (simp add: mask_eq_decr_exp)

lemma high_bits_set_lsb: "drop_bit 1 ((p AND 0xFE) OR int_of_bit c) = drop_bit 1 p" for p :: u8
proof (rule bit_eqI)
  fix n
  assume "possible_bit TYPE(u8) n"
  have "bit p (Suc n) \<Longrightarrow> n < 7"
    using bit_imp_le_length [of p "Suc n"] by simp
  then show "bit (drop_bit 1 ((p AND 0xFE) OR int_of_bit c)) n = bit (drop_bit 1 p) n"
    by (auto simp: int_of_bit_def bit_simps m127)
qed

lemma unat_drop_bit_1: "unat (drop_bit 1 x) = unat x div 2" for x :: u8
  by (simp add: unat_drop_bit_eq drop_bit_eq_div unat_div)

lemma near_of_high_bits:
  "drop_bit 1 x = drop_bit 1 y \<Longrightarrow> unat x \<le> unat y + 1 \<and> unat y \<le> unat x + 1" for x y :: u8
proof -
  assume "drop_bit 1 x = drop_bit 1 y"
  then have "unat (drop_bit 1 x) = unat (drop_bit 1 y)" by simp
  then have "unat x div 2 = unat y div 2" by (simp only: unat_drop_bit_1)
  then show ?thesis by arith
qed

lemma near_sample_refl: "near_sample c c"
  by (simp add: near_sample_def)

lemma near_sample_set_lsb:
  "near_sample c s \<Longrightarrow> near_sample c ((s AND 0xFE) OR int_of_bit ch)"
proof -
  assume "near_sample c s"
  then have "drop_bit 1 s = drop_bit 1 c"
    unfolding near_sample_def by (rule conjunct1)
  with high_bits_set_lsb [of s ch]
  have h: "drop_bit 1 ((s AND 0xFE) OR int_of_bit ch) = drop_bit 1 c"
    by (rule trans)
  from h near_of_high_bits [OF h] show ?thesis
    unfolding near_sample_def by (rule conjI)
qed

lemma lsb_only_refl: "lsb_only c c"
  by (simp add: lsb_only_def list_all2_refl near_sample_refl)

lemma lsb_only_update:
  "lsb_only c x \<Longrightarrow>
   lsb_only c (x\<lparr>data := (data x)[idx := (data x ! idx AND 0xFE) OR int_of_bit ch]\<rparr>)"
proof -
  assume a: "lsb_only c x"
  let ?v = "(data x ! idx AND 0xFE) OR int_of_bit ch"
  have "near_sample (data c ! i) ((data x)[idx := ?v] ! i)" if i: "i < length (data x)" for i
  proof (cases "i = idx")
    case True
    from a i have "near_sample (data c ! i) (data x ! i)"
      by (simp add: lsb_only_def list_all2_conv_all_nth)
    then have "near_sample (data c ! i) ((data x ! i AND 0xFE) OR int_of_bit ch)"
      by (rule near_sample_set_lsb)
    with True i show ?thesis by (simp only: nth_list_update_eq)
  next
    case False
    with a i show ?thesis
      by (simp add: lsb_only_def list_all2_conv_all_nth)
  qed
  with a show ?thesis
    by (simp add: lsb_only_def list_all2_conv_all_nth)
qed

lemma stego_inv_setitem2:
  assumes "stego < length st1" "stego_inv st1 stego cv st"
  shows "stego_inv st1 stego cv
           (setitem2 st stego i j ((getitem2 st stego i j AND 0xFE) OR int_of_bit ch))"
proof -
  from assms(2) obtain x where x: "st = st1[stego := x]" "lsb_only cv x"
    by (auto simp: stego_inv_def)
  with assms(1) have at: "st ! stego = x" by simp
  show ?thesis
    unfolding stego_inv_def setitem2_def getitem2_def at
    using lsb_only_update [OF x(2)] by (auto simp: x(1))
qed

lemma stego_inv_setitem3:
  assumes "stego < length st1" "stego_inv st1 stego cv st"
  shows "stego_inv st1 stego cv
           (setitem3 st stego i j k ((getitem3 st stego i j k AND 0xFE) OR int_of_bit ch))"
proof -
  from assms(2) obtain x where x: "st = st1[stego := x]" "lsb_only cv x"
    by (auto simp: stego_inv_def)
  with assms(1) have at: "st ! stego = x" by simp
  show ?thesis
    unfolding stego_inv_def setitem3_def getitem3_def at
    using lsb_only_update [OF x(2)] by (auto simp: x(1))
qed

lemma stego_inv_embed_channels:
  "stego < length st1 \<Longrightarrow> stego_inv st1 stego cv st \<Longrightarrow>
   stego_inv st1 stego cv (fst (embed_channels bd stego i j ks (st, di)))"
  by (induction ks arbitrary: st di) (simp_all add: stego_inv_setitem3)

lemma stego_inv_embed_cols:
  "stego < length st1 \<Longrightarrow> stego_inv st1 stego cv st \<Longrightarrow>
   stego_inv st1 stego cv (fst (embed_cols bd cover stego i js (st, di)))"
proof (induction js arbitrary: st di)
  case Nil
  then show ?case by simp
next
  case (Cons j js)
  show ?case
  proof (cases "di < length bd")
    case False
    with Cons.prems show ?thesis by simp
  next
    case True
    show ?thesis
    proof (cases "shape (st ! cover)")
      case (Gray h w)
      with True Cons.prems show ?thesis
        by (simp add: Cons.IH stego_inv_setitem2)
    next
      case (Color h w)
      obtain st' di' where e: "embed_channels bd stego i j [0..<3] (st, di) = (st', di')"
        by (cases "embed_channels bd stego i j [0..<3] (st, di)")
      from stego_inv_embed_channels [OF Cons.prems, of bd i j "[0..<3]" di]
      have "stego_inv st1 stego cv st'" by (simp add: e)
      with Color True Cons.prems(1) show ?thesis
        by (simp add: e Cons.IH)
    qed
  qed
qed

lemma stego_inv_embed_rows:
  "stego < length st1 \<Longrightarrow> stego_inv st1 stego cv st \<Longrightarrow>
   stego_inv st1 stego cv (fst (embed_rows bd cover stego w is (st, di)))"
proof (induction "is" arbitrary: st di)
  case Nil
  then show ?case by simp
next
  case (Cons i "is")
  obtain st' di' where e: "embed_cols bd cover stego i [0..<w] (st, di) = (st', di')"
    by (cases "embed_cols bd cover stego i [0..<w] (st, di)")
  from stego_inv_embed_cols [OF Cons.prems, of bd cover i "[0..<w]" di]
  have "stego_inv st1 stego cv st'" by (simp add: e)
  with Cons.prems(1) show ?case
    by (simp add: e Cons.IH)
qed

lemma stego_inv_sobel_embed_cols:
  "stego < length st1 \<Longrightarrow> stego_inv st1 stego cv st \<Longrightarrow>
   stego_inv st1 stego cv (fst (sobel_embed_cols bd emask cover stego w i js (st, di)))"
proof (induction js arbitrary: st di)
  case Nil
  then show ?case by simp
next
  case (Cons j js)
  let ?body =
    "if di < length bd \<and> emask ! (i * w + j) = 1 then
       (case shape (st ! cover) of
          Gray h' w' \<Rightarrow>
            (setitem2 st stego i j
               ((getitem2 st stego i j AND 0xFE) OR int_of_bit (bd ! di)), di + 1)
        | Color h' w' \<Rightarrow> embed_channels bd stego i j [0..<3] (st, di))
     else (st, di)"
  obtain st' di' where e: "?body = (st', di')"
    by (cases ?body)
  have "stego_inv st1 stego cv (fst ?body)"
    using Cons.prems stego_inv_embed_channels [OF Cons.prems, of bd i j "[0..<3]" di]
    by (simp add: stego_inv_setitem2 split: shape.split)
  then have inv': "stego_inv st1 stego cv st'" by (simp only: e fst_conv)
  have "sobel_embed_cols bd emask cover stego w i (j # js) (st, di)
          = (if di' \<ge> length bd then (st', di')
             else sobel_embed_cols bd emask cover stego w i js (st', di'))"
    using e by (simp only: sobel_embed_cols.simps prod.case)
  with inv' Cons.prems(1) show ?case
    by (simp add: Cons.IH)
qed

lemma stego_inv_sobel_embed_rows:
  "stego < length st1 \<Longrightarrow> stego_inv st1 stego cv st \<Longrightarrow>
   stego_inv st1 stego cv (fst (sobel_embed_rows bd emask cover stego w is (st, di)))"
proof (induction "is" arbitrary: st di)
  case Nil
  then show ?case by simp
next
  case (Cons i "is")
  obtain st' di' where
    e: "sobel_embed_cols bd emask cover stego w i [0..<w] (st, di) = (st', di')"
    by (cases "sobel_embed_cols bd emask cover stego w i [0..<w] (st, di)")
  from stego_inv_sobel_embed_cols [OF Cons.prems, of bd emask cover w i "[0..<w]" di]
  have "stego_inv st1 stego cv st'" by (simp add: e)
  with Cons.prems(1) show ?case
    by (simp add: e Cons.IH)
qed

lemma stego_inv_copy:
  assumes "stego_inv (st @ [c]) (length st) c st2" "cover < length st"
  shows "st2 = st @ [st2 ! length st] \<and> st2 ! cover = st ! cover \<and> lsb_only c (st2 ! length st)"
proof -
  from assms(1) obtain x where x: "st2 = (st @ [c])[length st := x]" "lsb_only c x"
    by (auto simp: stego_inv_def)
  from x(1) have "st2 = st @ [x]" by simp
  with x(2) assms(2) show ?thesis by (simp add: nth_append)
qed

lemma stego_inv_start: "stego_inv (st @ [c]) (length st) c (st @ [c])"
  unfolding stego_inv_def using lsb_only_refl [of c] by (intro exI [of _ c]) simp

lemma lsb_embed_frame:
  assumes "cover_image < length st"
    and "lsb_embed st cover_image secret_data = (st', Inr stego_image)"
  shows "stego_image = length st \<and> st' = st @ [st' ! stego_image]
         \<and> st' ! cover_image = st ! cover_image
         \<and> lsb_only (st ! cover_image) (st' ! stego_image)"
proof -
  let ?c = "st ! cover_image"
  let ?st1 = "st @ [?c]"
  let ?run = "embed_rows (encode secret_data) cover_image (length st)
                (width (shape (?st1 ! cover_image)))
                [0..<height (shape (?st1 ! cover_image))] (?st1, 0)"
  from assms(2) have res: "stego_image = length st" "st' = fst ?run"
    by (auto simp: lsb_embed_def np_copy_def Let_def split: if_splits prod.splits)
  have "stego_inv ?st1 (length st) ?c (fst ?run)"
    by (rule stego_inv_embed_rows) (simp_all add: stego_inv_start)
  from stego_inv_copy [OF this assms(1)] res show ?thesis by simp
qed

lemma sobel_embed_frame:
  assumes "cover_image < length st"
    and "sobel_embed G st cover_image secret_data threshold = (st', Inr stego_image)"
  shows "stego_image = length st \<and> st' = st @ [st' ! stego_image]
         \<and> st' ! cover_image = st ! cover_image
         \<and> lsb_only (st ! cover_image) (st' ! stego_image)"
proof -
  let ?c = "st ! cover_image"
  let ?st1 = "st @ [?c]"
  from assms(2) obtain emask di where
    res: "stego_image = length st"
         "sobel_embed_rows (encode secret_data) emask cover_image (length st)
                (width (shape (?st1 ! cover_image)))
                [0..<height (shape (?st1 ! cover_image))] (?st1, 0) = (st', di)"
    by (auto simp: sobel_embed_def np_copy_def Let_def split: sum.splits prod.splits)
  have "stego_inv ?st1 (length st) ?c
          (fst (sobel_embed_rows (encode secret_data) emask cover_image (length st)
                (width (shape (?st1 ! cover_image)))
                [0..<height (shape (?st1 ! cover_image))] (?st1, 0)))"
    by (rule stego_inv_sobel_embed_rows) (simp_all add: stego_inv_start)
  then have "stego_inv ?st1 (length st) ?c st'"
    by (simp only: res(2) fst_conv)
  from stego_inv_copy [OF this assms(1)] res(1) show ?thesis by simp
qed

text \<open>
  C10. When \<open>LSBSteganography.embed\<close> or \<open>SobelAdaptiveSteganography.embed\<close>
  succeeds, the stego image is a new array, allocated past every array of the caller's
  store; the store is otherwise what it was, so the cover array is not modified; and
  the stego image has the cover's shape and, at every sample, the cover's bits above
  the lowest one, so that each sample differs from the cover's by at most 1.
\<close>

theorem embed_changes_lsb_only:
  assumes "cover_image < length st"
  shows "(lsb_embed st cover_image secret_data = (st', Inr stego_image) \<longrightarrow>
            stego_image = length st \<and> st' = st @ [st' ! stego_image]
            \<and> st' ! cover_image = st ! cover_image
            \<and> lsb_only (st ! cover_image) (st' ! stego_image))
       \<and> (sobel_embed G st cover_image secret_data threshold = (st', Inr stego_image) \<longrightarrow>
            stego_image = length st \<and> st' = st @ [st' ! stego_image]
            \<and> st' ! cover_image = st ! cover_image
            \<and> lsb_only (st ! cover_image) (st' ! stego_image))"
  using lsb_embed_frame [OF assms] sobel_embed_frame [OF assms] by blast


theorem embed_changes_lsb_only_witness:
  "lsb_embed [uniform_image (Gray 4 4) 128] 0 [65]
     = ([uniform_image (Gray 4 4) 128,
         \<lparr>shape = Gray 4 4,
          data = [128, 129, 128, 128, 128, 128, 128, 129,
                  128, 128, 128, 128, 128, 128, 128, 128]\<rparr>], Inr 1)
   \<and> sobel_embed uniform_gradient [uniform_image (Gray 4 4) 128] 0 [65] 3
     = ([uniform_image (Gray 4 4) 128,
         \<lparr>shape = Gray 4 4,
          data = [128, 129, 128, 128, 128, 128, 128, 129,
                  128, 128, 128, 128, 128, 128, 128, 128]\<rparr>], Inr 1)
   \<and> lsb_only (uniform_image (Gray 4 4) 128)
         \<lparr>shape = Gray 4 4,
          data = [128, 129, 128, 128, 128, 128, 128, 129,
                  128, 128, 128, 128, 128, 128, 128, 128]\<rparr>"
proof -
  let ?c = "uniform_image (Gray 4 4) 128"
  let ?s = "\<lparr>shape = Gray 4 4,
             data = [128, 129, 128, 128, 128, 128, 128, 129,
                     128, 128, 128, 128, 128, 128, 128, 128 :: u8]\<rparr>"
  have e1: "lsb_embed [?c] 0 [65] = ([?c, ?s], Inr 1)"
    by code_simp
  have e2: "sobel_embed uniform_gradient [?c] 0 [65] 3 = ([?c, ?s], Inr 1)"
    by code_simp
  have l: "(0 :: nat) < length [?c]"
    by simp
  from embed_changes_lsb_only [OF l, of "[65]" "[?c, ?s]" 1 uniform_gradient 3] e1 e2
  show ?thesis by simp
qed


section \<open>LSB embedding: the capacity check\<close>

lemma length_encode_bytes:
  "list_all (\<lambda>c. c \<le> 255) secret_data \<Longrightarrow> length (encode secret_data) = 8 * (length secret_data + 1)"
  by (simp add: encode_def concat_format_bytes length_concat_big_endian_8)

lemma lsb_embed_raises:
  "length (flatten (st ! cover_image)) < length (encode secret_data) \<Longrightarrow>
   lsb_embed st cover_image secret_data = (st, Inl CapacityError)"
  by (simp add: lsb_embed_def Let_def)

lemma lsb_embed_succeeds:
  "\<not> length (flatten (st ! cover_image)) < length (encode secret_data) \<Longrightarrow>
   snd (lsb_embed st cover_image secret_data) = Inr (length st)"
  by (simp add: lsb_embed_def Let_def np_copy_def split: prod.splits)

text \<open>
  \<open>LSBSteganography.embed\<close> raises the capacity error exactly when the bit string of
  line 25 is longer than the number of samples of the cover (\<open>H * W\<close> for a grayscale
  image, \<open>H * W * 3\<close> for a colour image); for a payload whose code points are all at
  most 255 that is when \<open>8 * (len + 1)\<close> exceeds the number of samples. It raises
  nothing else, and when it raises the store is untouched: no copy has been made and
  the cover is what it was. When the bit string fills the image exactly, embedding
  succeeds.
\<close>

lemma lsb_embed_capacity_check:
  "(valid_image (st ! cover_image) \<longrightarrow>
      (snd (lsb_embed st cover_image secret_data) = Inl CapacityError
         \<longleftrightarrow> np_size (shape (st ! cover_image)) < length (encode secret_data)))
   \<and> (valid_image (st ! cover_image) \<and> list_all (\<lambda>c. c \<le> 255) secret_data \<longrightarrow>
      (snd (lsb_embed st cover_image secret_data) = Inl CapacityError
         \<longleftrightarrow> np_size (shape (st ! cover_image)) < 8 * (length secret_data + 1)))
   \<and> (snd (lsb_embed st cover_image secret_data) = Inl e \<longrightarrow>
      e = CapacityError \<and> fst (lsb_embed st cover_image secret_data) = st)
   \<and> (valid_image (st ! cover_image)
      \<and> np_size (shape (st ! cover_image)) = length (encode secret_data) \<longrightarrow>
      snd (lsb_embed st cover_image secret_data) = Inr (length st))"
proof -
  let ?raise = "length (flatten (st ! cover_image)) < length (encode secret_data)"
  have slots: "length (flatten (st ! cover_image)) = np_size (shape (st ! cover_image))"
    if "valid_image (st ! cover_image)"
    using that by (simp add: valid_image_def flatten_def)
  have r: "snd (lsb_embed st cover_image secret_data) = Inl CapacityError \<longleftrightarrow> ?raise"
    using lsb_embed_raises [of st cover_image secret_data]
      lsb_embed_succeeds [of st cover_image secret_data]
    by (cases ?raise) simp_all
  have u: "e = CapacityError \<and> fst (lsb_embed st cover_image secret_data) = st"
    if "snd (lsb_embed st cover_image secret_data) = Inl e"
    using that lsb_embed_raises [of st cover_image secret_data]
      lsb_embed_succeeds [of st cover_image secret_data]
    by (cases ?raise) simp_all
  show ?thesis
    using r u slots lsb_embed_succeeds [of st cover_image secret_data]
    by (auto simp: length_encode_bytes)
qed

lemma lsb_embed_capacity_check_example:
  "snd (lsb_embed [uniform_image (Gray 4 4) 128] 0 [65]) = Inr 1
   \<and> snd (lsb_embed [uniform_image (Gray 4 4) 128] 0 [65, 66]) = Inl CapacityError
   \<and> fst (lsb_embed [uniform_image (Gray 4 4) 128] 0 [65, 66]) = [uniform_image (Gray 4 4) 128]
   \<and> snd (lsb_embed [uniform_image (Color 2 4) 128] 0 [65, 66]) = Inr 1"
proof -
  have v: "valid_image ([uniform_image (Gray 4 4) 128] ! 0)"
    "valid_image ([uniform_image (Color 2 4) 128] ! 0)"
    by (simp_all add: valid_image_def uniform_image_def)
  have s: "np_size (shape ([uniform_image (Gray 4 4) 128] ! 0)) = 16"
    "np_size (shape ([uniform_image (Color 2 4) 128] ! 0)) = 24"
    by (simp_all add: uniform_image_def)
  have n: "length (encode [65]) = 16" "length (encode [65, 66]) = 24"
    by code_simp+
  show ?thesis
    using lsb_embed_capacity_check [of "[uniform_image (Gray 4 4) 128]" 0 "[65]"]
      lsb_embed_capacity_check [of "[uniform_image (Gray 4 4) 128]" 0 "[65, 66]" CapacityError]
      lsb_embed_capacity_check [of "[uniform_image (Color 2 4) 128]" 0 "[65, 66]"]
      v s n
    by simp
qed

text \<open>
  C4 fails for a payload with a character above 255, through the encoding that does
  not truncate it: on a 4 by 4 grayscale image the one-character payload with code
  point 256 has \<open>8 * (1 + 1) = 16\<close>, which does not exceed the 16 samples, yet
  \<open>embed\<close> raises the capacity error, because the bit string it built has 17 bits.
\<close>

theorem lsb_embed_wide_payload_raises:
  "valid_image (uniform_image (Gray 4 4) 128)
   \<and> lsb_embed [uniform_image (Gray 4 4) 128] 0 [256]
       = ([uniform_image (Gray 4 4) 128], Inl CapacityError)
   \<and> \<not> np_size (Gray 4 4) < 8 * (length [256 :: nat] + 1)"
proof -
  have n: "length (encode [256]) = 17"
    by code_simp
  have "length (flatten ([uniform_image (Gray 4 4) 128] ! 0)) < length (encode [256])"
    unfolding n by (simp add: flatten_def uniform_image_def)
  from lsb_embed_raises [OF this] show ?thesis
    by (simp add: valid_image_def uniform_image_def)
qed

section \<open>Round trip\<close>

lemma int_base2_snoc:
  "int_base2 (xs @ [c]) = 2 * int_base2 xs + (if c = CHR ''1'' then 1 else 0)"
  by (simp add: int_base2_def)

lemma digit_one_iff: "digit d = CHR ''1'' \<longleftrightarrow> d \<noteq> 0"
  by (simp add: digit_def)

lemma int_base2_big_endian: "int_base2 (big_endian (Suc k) n) = n mod 2 ^ Suc k"
proof (induction k arbitrary: n)
  case 0
  show ?case
    by (cases "n mod 2 = 0") (simp_all add: big_endian_def int_base2_def digit_def)
next
  case (Suc k)
  have "int_base2 (big_endian (Suc (Suc k)) n)
          = 2 * ((n div 2) mod 2 ^ Suc k) + n mod 2"
    by (simp add: big_endian_Suc int_base2_snoc Suc.IH digit_one_iff)
  also have "\<dots> = n mod (2 * 2 ^ Suc k)"
    by (rule mod_mult2_eq [symmetric])
  finally show ?case by (simp only: power_Suc)
qed

lemma big_endian_8_eq: "big_endian_8 n = big_endian 8 n"
  by (simp add: big_endian_8_def big_endian_def)

lemma int_base2_big_endian_8: "n \<le> 255 \<Longrightarrow> int_base2 (big_endian_8 n) = n"
  using int_base2_big_endian [of 7 n] by (simp add: big_endian_8_eq)

lemma big_endian_8_nonzero: "1 \<le> n \<Longrightarrow> n \<le> 255 \<Longrightarrow> big_endian_8 n \<noteq> ''00000000''"
proof
  assume n: "1 \<le> n" "n \<le> 255" and z: "big_endian_8 n = ''00000000''"
  have "int_base2 ''00000000'' = 0" by (simp add: int_base2_def)
  with z int_base2_big_endian_8 [OF n(2)] n(1) show False by simp
qed

lemma range8_add8: "range8 (n + 8) = 0 # map (\<lambda>b. b + 8) (range8 n)"
proof -
  have "(n + 8 + 7) div 8 = Suc ((n + 7) div 8)" by simp
  then show ?thesis
    by (simp add: range8_def upt_conv_Cons map_Suc_upt [symmetric] del: upt_Suc)
qed

lemma decode_bytes_Nil: "decode_bytes [] = []"
  by (simp add: decode_bytes_def range8_def)

lemma decode_bytes_byte:
  "length b = 8 \<Longrightarrow> decode_bytes (b @ rest) = int_base2 b # decode_bytes rest"
proof -
  assume b: "length b = 8"
  have len: "length (b @ rest) = length rest + 8"
    using b by simp
  have f0: "take 8 (drop 0 (b @ rest)) = b"
    using b by simp
  have fk: "take 8 (drop (x + 8) (b @ rest)) = take 8 (drop x rest)" for x
    using b by simp
  show ?thesis
    unfolding decode_bytes_def len range8_add8
    by (simp only: list.map concat.simps map_map comp_def f0 fk Let_def b) simp
qed

lemma decode_bytes_big_endian:
  "list_all (\<lambda>c. c \<le> 255) s \<Longrightarrow> decode_bytes (concat (map big_endian_8 s)) = s"
  by (induction s)
    (simp_all add: decode_bytes_Nil decode_bytes_byte length_big_endian_8 int_base2_big_endian_8)

lemma scan_bits_short:
  "length bd mod 8 + length cs < 8 \<Longrightarrow> scan_bits (cs @ ys) bd = scan_bits ys (bd @ cs)"
proof (induction cs arbitrary: bd)
  case Nil
  then show ?case by simp
next
  case (Cons c cs)
  from Cons.prems have m: "Suc (length bd) mod 8 = Suc (length bd mod 8)"
    by (simp add: mod_Suc)
  with Cons.prems have "length (bd @ [c]) mod 8 + length cs < 8" by simp
  from Cons.IH [OF this] m show ?case by (simp add: Let_def)
qed

lemma scan_bits_byte:
  assumes "length bd mod 8 = 0" "length b = 8"
  shows "scan_bits (b @ ys) bd
           = (if b = ''00000000'' then Inl (decode_bytes bd) else scan_bits ys (bd @ b))"
proof -
  from assms(2) have ne: "b \<noteq> []" by auto
  let ?b7 = "butlast b"
  have split: "b = ?b7 @ [last b]" using ne by simp
  have l7: "length ?b7 = 7" using assms(2) by simp
  have "scan_bits (b @ ys) bd = scan_bits (?b7 @ (last b # ys)) bd"
    by (subst split) simp
  also have "\<dots> = scan_bits (last b # ys) (bd @ ?b7)"
    by (rule scan_bits_short) (simp add: assms)
  also have "\<dots> = (if b = ''00000000'' then Inl (decode_bytes bd) else scan_bits ys (bd @ b))"
  proof -
    have eq: "(bd @ ?b7) @ [last b] = bd @ b" using ne by simp
    have len: "length (bd @ b) mod 8 = 0" using assms by (simp add: mod_add_left_eq)
    have l8: "last8 (bd @ b) = b" using assms(2) by (simp add: last8_def)
    have b8: "butlast8 (bd @ b) = bd" using assms(2) by (simp add: butlast8_def)
    show ?thesis
      by (simp only: scan_bits.simps Let_def eq len l8 b8) simp
  qed
  finally show ?thesis .
qed

lemma scan_bits_payload:
  "length bd mod 8 = 0 \<Longrightarrow> list_all (\<lambda>c. 1 \<le> c \<and> c \<le> 255) todo \<Longrightarrow>
   scan_bits (concat (map big_endian_8 todo) @ ''00000000'' @ rest) bd
     = Inl (decode_bytes (bd @ concat (map big_endian_8 todo)))"
proof (induction todo arbitrary: bd)
  case Nil
  have "scan_bits (''00000000'' @ rest) bd = Inl (decode_bytes bd)"
    using scan_bits_byte [OF Nil.prems(1), of "''00000000''" rest] by simp
  then show ?case by simp
next
  case (Cons c todo)
  from Cons.prems(2) have c: "1 \<le> c" "c \<le> 255" and rest: "list_all (\<lambda>c. 1 \<le> c \<and> c \<le> 255) todo"
    by simp_all
  let ?tail = "concat (map big_endian_8 todo) @ ''00000000'' @ rest"
  have "scan_bits (big_endian_8 c @ ?tail) bd = scan_bits ?tail (bd @ big_endian_8 c)"
    using scan_bits_byte [OF Cons.prems(1) length_big_endian_8, of c ?tail]
      big_endian_8_nonzero [OF c]
    by simp
  also have "\<dots> = Inl (decode_bytes ((bd @ big_endian_8 c) @ concat (map big_endian_8 todo)))"
    using rest by (intro Cons.IH) (simp_all add: Cons.prems(1) length_big_endian_8 mod_add_left_eq)
  finally show ?case by simp
qed

lemma scan_bits_append:
  "scan_bits (xs @ ys) bd
     = (case scan_bits xs bd of Inl r \<Rightarrow> Inl r | Inr bd' \<Rightarrow> scan_bits ys bd')"
  by (induction xs arbitrary: bd) (simp_all add: Let_def)

lemma extract_cols_gray:
  "shape img = Gray h w \<Longrightarrow> j0 \<le> w \<Longrightarrow> i * w + w \<le> length (data img) \<Longrightarrow>
   extract_cols img i [j0..<w] bd
     = scan_bits (map str_lsb (take (w - j0) (drop (i * w + j0) (data img)))) bd"
proof (induction "w - j0" arbitrary: j0 bd)
  case 0
  then show ?case by simp
next
  case (Suc n)
  from Suc.hyps(2) have lt: "j0 < w" and n: "n = w - Suc j0" by simp_all
  with Suc.prems have m: "i * w + j0 < length (data img)" by simp
  have cols: "[j0..<w] = j0 # [Suc j0..<w]"
    using lt by (simp add: upt_conv_Cons)
  have "drop (i * w + j0) (data img)
          = data img ! (i * w + j0) # drop (i * w + Suc j0) (data img)"
    using Cons_nth_drop_Suc [OF m] by simp
  moreover have "w - j0 = Suc (w - Suc j0)" using lt by simp
  ultimately have bits:
    "map str_lsb (take (w - j0) (drop (i * w + j0) (data img)))
       = str_lsb (data img ! (i * w + j0))
         # map str_lsb (take (w - Suc j0) (drop (i * w + Suc j0) (data img)))"
    by simp
  have ih: "extract_cols img i [Suc j0..<w] bd'
              = scan_bits (map str_lsb (take (w - Suc j0) (drop (i * w + Suc j0) (data img)))) bd'"
    for bd'
    using Suc.hyps(1) [OF n Suc.prems(1) _ Suc.prems(3), of bd'] lt by simp
  show ?case
    unfolding cols bits
    by (simp add: Suc.prems(1) ih Let_def)
qed

lemma extract_rows_gray:
  "shape img = Gray h w \<Longrightarrow> length (data img) = h * w \<Longrightarrow> i0 \<le> h \<Longrightarrow>
   extract_rows img w [i0..<h] bd = scan_bits (map str_lsb (drop (i0 * w) (data img))) bd"
proof (induction "h - i0" arbitrary: i0 bd)
  case 0
  then show ?case by simp
next
  case (Suc n)
  from Suc.hyps(2) have lt: "i0 < h" and n: "n = h - Suc i0" by simp_all
  have rows: "[i0..<h] = i0 # [Suc i0..<h]"
    using lt by (simp add: upt_conv_Cons)
  from lt have "Suc i0 * w \<le> h * w" by (intro mult_le_mono1) simp
  then have fit: "i0 * w + w \<le> length (data img)"
    by (simp add: Suc.prems(2))
  have row: "extract_cols img i0 [0..<w] bd
               = scan_bits (map str_lsb (take w (drop (i0 * w) (data img)))) bd"
    using extract_cols_gray [OF Suc.prems(1) _ fit, of 0 bd] by simp
  have split: "drop (i0 * w) (data img)
                 = take w (drop (i0 * w) (data img)) @ drop (Suc i0 * w) (data img)"
  proof -
    have "drop (Suc i0 * w) (data img) = drop w (drop (i0 * w) (data img))"
      by (simp add: add.commute)
    then show ?thesis by (simp only: append_take_drop_id)
  qed
  have ih: "extract_rows img w [Suc i0..<h] bd'
              = scan_bits (map str_lsb (drop (Suc i0 * w) (data img))) bd'" for bd'
    using Suc.hyps(1) [OF n Suc.prems(1,2), of bd'] lt by simp
  have "scan_bits (map str_lsb (drop (i0 * w) (data img))) bd
          = (case scan_bits (map str_lsb (take w (drop (i0 * w) (data img)))) bd of
               Inl r \<Rightarrow> Inl r
             | Inr bd' \<Rightarrow> scan_bits (map str_lsb (drop (Suc i0 * w) (data img))) bd')"
    by (subst split) (simp only: map_append scan_bits_append)
  then show ?case
    unfolding rows by (simp add: row ih split: sum.splits)
qed

lemma lsb_extract_gray:
  "shape img = Gray h w \<Longrightarrow> valid_image img \<Longrightarrow>
   lsb_extract img
     = (case scan_bits (map str_lsb (data img)) [] of
          Inl secret_data \<Rightarrow> secret_data
        | Inr binary_data \<Rightarrow> decode_bytes binary_data)"
  using extract_rows_gray [of img h w 0 "[]"]
  by (simp add: lsb_extract_def valid_image_def)

lemma length_written: "length (written bd xs m) = length xs"
  by (simp add: written_def)

lemma written_0: "written bd xs 0 = xs"
  by (simp add: written_def map_nth)

lemma written_step:
  assumes "m < length xs"
  shows "(written bd xs m)[m := (written bd xs m ! m AND 0xFE) OR int_of_bit (bd ! m)]
           = written bd xs (Suc m)"
proof (rule nth_equalityI)
  show "length ((written bd xs m)[m := (written bd xs m ! m AND 0xFE) OR int_of_bit (bd ! m)])
          = length (written bd xs (Suc m))"
    by (simp add: length_written)
next
  fix i
  assume "i < length ((written bd xs m)[m := (written bd xs m ! m AND 0xFE) OR int_of_bit (bd ! m)])"
  then have i: "i < length xs" by (simp add: length_written)
  show "(written bd xs m)[m := (written bd xs m ! m AND 0xFE) OR int_of_bit (bd ! m)] ! i
          = written bd xs (Suc m) ! i"
  proof (cases "i = m")
    case True
    with assms show ?thesis by (simp add: written_def)
  next
    case False
    with i show ?thesis by (auto simp: written_def)
  qed
qed

lemma embed_cols_Nil: "embed_cols bd cover stego i [] p = p"
  by (cases p) simp

lemma embed_rows_Nil: "embed_rows bd cover stego w [] p = p"
  by (cases p) simp

lemma embed_rows_Cons:
  "embed_rows bd cover stego w (i # is) p
     = (if length bd \<le> snd (embed_cols bd cover stego i [0..<w] p)
        then embed_cols bd cover stego i [0..<w] p
        else embed_rows bd cover stego w is (embed_cols bd cover stego i [0..<w] p))"
  by (cases p) (simp split: prod.splits)

lemma embed_cols_gray:
  assumes "stego < length st1" "cover \<noteq> stego" "shape (st1 ! cover) = Gray h w"
    and "length xs = h * w" "i < h"
  shows "j0 \<le> w \<Longrightarrow>
         embed_cols bd cover stego i [j0..<w] (gray_state st1 stego h w bd xs (i * w + j0))
           = gray_state st1 stego h w bd xs (i * w + w)"
proof (induction "w - j0" arbitrary: j0)
  case 0
  then show ?case by (simp add: embed_cols_Nil)
next
  case (Suc n)
  from Suc.hyps(2) have lt: "j0 < w" and n: "n = w - Suc j0" by simp_all
  let ?m = "i * w + j0"
  have cols: "[j0..<w] = j0 # [Suc j0..<w]"
    using lt by (simp add: upt_conv_Cons)
  show ?case
  proof (cases "?m < length bd")
    case False
    then have "min ?m (length bd) = length bd" "min (i * w + w) (length bd) = length bd"
      using lt by simp_all
    then show ?thesis
      unfolding cols by (simp add: gray_state_def)
  next
    case True
    from assms(5) have "Suc i * w \<le> h * w" by (intro mult_le_mono1) simp
    with lt assms(4) have m: "?m < length xs" by simp
    let ?W = "st1[stego := \<lparr>shape = Gray h w, data = written bd xs ?m\<rparr>]"
    have cur: "gray_state st1 stego h w bd xs ?m = (?W, ?m)"
      using True by (simp add: gray_state_def)
    have nxt: "gray_state st1 stego h w bd xs (i * w + Suc j0)
                 = (st1[stego := \<lparr>shape = Gray h w, data = written bd xs (Suc ?m)\<rparr>], Suc ?m)"
      using True by (simp add: gray_state_def)
    have shp: "shape (?W ! cover) = Gray h w"
      using assms(2,3) by simp
    have at: "?W ! stego = \<lparr>shape = Gray h w, data = written bd xs ?m\<rparr>"
      using assms(1) by simp
    have set: "setitem2 ?W stego i j0
                 ((getitem2 ?W stego i j0 AND 0xFE) OR int_of_bit (bd ! ?m))
                 = st1[stego := \<lparr>shape = Gray h w, data = written bd xs (Suc ?m)\<rparr>]"
      unfolding setitem2_def getitem2_def at
      by (simp add: written_step [OF m])
    have "embed_cols bd cover stego i (j0 # [Suc j0..<w]) (?W, ?m)
            = embed_cols bd cover stego i [Suc j0..<w]
                (gray_state st1 stego h w bd xs (i * w + Suc j0))"
      using True by (simp only: embed_cols.simps if_True shp shape.case set nxt) simp
    also have "\<dots> = gray_state st1 stego h w bd xs (i * w + w)"
      using Suc.hyps(1) [OF n] lt by simp
    finally show ?thesis
      unfolding cols cur .
  qed
qed

lemma embed_rows_gray:
  assumes "stego < length st1" "cover \<noteq> stego" "shape (st1 ! cover) = Gray h w"
    and "length xs = h * w"
  shows "i0 \<le> h \<Longrightarrow>
         embed_rows bd cover stego w [i0..<h] (gray_state st1 stego h w bd xs (i0 * w))
           = gray_state st1 stego h w bd xs (h * w)"
proof (induction "h - i0" arbitrary: i0)
  case 0
  then show ?case by (simp add: embed_rows_Nil)
next
  case (Suc n)
  from Suc.hyps(2) have lt: "i0 < h" and n: "n = h - Suc i0" by simp_all
  have rows: "[i0..<h] = i0 # [Suc i0..<h]"
    using lt by (simp add: upt_conv_Cons)
  have row: "embed_cols bd cover stego i0 [0..<w] (gray_state st1 stego h w bd xs (i0 * w))
               = gray_state st1 stego h w bd xs (Suc i0 * w)"
    using embed_cols_gray [OF assms lt, of 0 bd] by (simp add: add.commute)
  from lt have le: "Suc i0 * w \<le> h * w" by (intro mult_le_mono1) simp
  show ?case
  proof (cases "length bd \<le> Suc i0 * w")
    case True
    with le have "min (Suc i0 * w) (length bd) = length bd"
      "min (h * w) (length bd) = length bd"
      by (simp_all only: min_absorb2 le_trans [OF True le])
    then have "gray_state st1 stego h w bd xs (Suc i0 * w)
                 = gray_state st1 stego h w bd xs (h * w)"
      by (simp only: gray_state_def)
    moreover from True have "length bd \<le> snd (gray_state st1 stego h w bd xs (Suc i0 * w))"
      by (simp add: gray_state_def)
    ultimately show ?thesis
      unfolding rows embed_rows_Cons row by simp
  next
    case False
    then have "\<not> length bd \<le> snd (gray_state st1 stego h w bd xs (Suc i0 * w))"
      by (simp add: gray_state_def)
    moreover have "embed_rows bd cover stego w [Suc i0..<h]
                     (gray_state st1 stego h w bd xs (Suc i0 * w))
                     = gray_state st1 stego h w bd xs (h * w)"
      using Suc.hyps(1) [OF n] lt by simp
    ultimately show ?thesis
      unfolding rows embed_rows_Cons row by simp
  qed
qed

lemma lsb_embed_gray:
  assumes "cover_image < length st" "shape (st ! cover_image) = Gray h w"
    and "valid_image (st ! cover_image)" "length (encode secret_data) \<le> h * w"
  shows "lsb_embed st cover_image secret_data
           = (st @ [\<lparr>shape = Gray h w,
                     data = written (encode secret_data) (data (st ! cover_image))
                              (length (encode secret_data))\<rparr>],
              Inr (length st))"
proof -
  let ?bd = "encode secret_data"
  let ?xs = "data (st ! cover_image)"
  let ?st1 = "st @ [st ! cover_image]"
  from assms(2,3) have len: "length ?xs = h * w"
    by (simp add: valid_image_def)
  have c: "st ! cover_image = \<lparr>shape = Gray h w, data = ?xs\<rparr>"
    using assms(2) by (cases "st ! cover_image") simp
  have at: "?st1 ! cover_image = st ! cover_image"
    using assms(1) by (simp add: nth_append)
  have start: "gray_state ?st1 (length st) h w ?bd ?xs (0 * w) = (?st1, 0)"
    by (simp add: gray_state_def written_0 flip: c)
  have "embed_rows ?bd cover_image (length st) w [0..<h] (?st1, 0)
          = gray_state ?st1 (length st) h w ?bd ?xs (h * w)"
    using embed_rows_gray [of "length st" ?st1 cover_image h w ?xs 0 ?bd] assms(1,2) len at
    unfolding start by simp
  also have "\<dots> = (st @ [\<lparr>shape = Gray h w, data = written ?bd ?xs (length ?bd)\<rparr>],
                     length ?bd)"
    using assms(4) by (simp add: gray_state_def min_absorb2)
  finally have run: "embed_rows ?bd cover_image (length st) w [0..<h] (?st1, 0)
          = (st @ [\<lparr>shape = Gray h w, data = written ?bd ?xs (length ?bd)\<rparr>], length ?bd)" .
  show ?thesis
    using assms(4) len
    by (simp add: lsb_embed_def Let_def flatten_def np_copy_def at assms(2) run)
qed

lemma str_lsb_set_lsb:
  "c = CHR ''0'' \<or> c = CHR ''1'' \<Longrightarrow> str_lsb ((x AND 0xFE) OR int_of_bit c) = c"
proof -
  have "(x AND 0xFE) AND 1 = 0"
    by (simp add: and.assoc)
  then have "((x AND 0xFE) OR b) AND 1 = b AND 1" for b
    by (simp add: bit.conj_disj_distrib2)
  then show "c = CHR ''0'' \<or> c = CHR ''1'' \<Longrightarrow> str_lsb ((x AND 0xFE) OR int_of_bit c) = c"
    by (auto simp: str_lsb_def int_of_bit_def)
qed

lemma bin_digits_chars: "set (bin_digits n) \<subseteq> {CHR ''0'', CHR ''1''}"
proof (induction n rule: bin_digits.induct)
  case (1 n)
  show ?case
  proof (cases "n < 2")
    case True
    then show ?thesis by (simp add: bin_digits_small digit_def)
  next
    case False
    with 1 show ?thesis by (simp add: bin_digits_step digit_def)
  qed
qed

lemma encode_chars: "set (encode s) \<subseteq> {CHR ''0'', CHR ''1''}"
  using bin_digits_chars by (auto simp: encode_def format_08b_def)

lemma written_bits:
  assumes "length bd \<le> length xs" "set bd \<subseteq> {CHR ''0'', CHR ''1''}"
  shows "map str_lsb (written bd xs (length bd)) = bd @ map str_lsb (drop (length bd) xs)"
proof (rule nth_equalityI)
  show "length (map str_lsb (written bd xs (length bd)))
          = length (bd @ map str_lsb (drop (length bd) xs))"
    using assms(1) by (simp add: length_written)
next
  fix i
  assume "i < length (map str_lsb (written bd xs (length bd)))"
  then have i: "i < length xs" by (simp add: length_written)
  show "map str_lsb (written bd xs (length bd)) ! i
          = (bd @ map str_lsb (drop (length bd) xs)) ! i"
  proof (cases "i < length bd")
    case True
    then have "bd ! i \<in> set bd" by (rule nth_mem)
    with assms(2) have "bd ! i = CHR ''0'' \<or> bd ! i = CHR ''1''"
      by blast
    from str_lsb_set_lsb [OF this] True i show ?thesis
      by (simp add: written_def nth_append)
  next
    case False
    with i show ?thesis
      by (simp add: written_def nth_append)
  qed
qed

text \<open>On a grayscale image the round trip holds: for a payload of characters
  between 1 and 255 whose \<open>8 * (len + 1)\<close> bits fit the image, \<open>embed\<close> succeeds and
  \<open>extract\<close> of the stego image is the payload.\<close>

lemma lsb_gray_round_trip:
  assumes "cover_image < length st" "shape (st ! cover_image) = Gray h w"
    and "valid_image (st ! cover_image)"
    and "list_all (\<lambda>c. 1 \<le> c \<and> c \<le> 255) secret_data"
    and "8 * (length secret_data + 1) \<le> h * w"
  shows "\<exists>st'. lsb_embed st cover_image secret_data = (st', Inr (length st))
           \<and> lsb_extract (st' ! length st) = secret_data"
proof -
  let ?bd = "encode secret_data"
  let ?xs = "data (st ! cover_image)"
  let ?stego = "\<lparr>shape = Gray h w, data = written ?bd ?xs (length ?bd)\<rparr>"
  from assms(4) have bytes: "list_all (\<lambda>c. c \<le> 255) secret_data"
    by (simp add: list_all_iff)
  have L: "length ?bd = 8 * (length secret_data + 1)"
    by (rule length_encode_bytes [OF bytes])
  have bd: "?bd = concat (map big_endian_8 secret_data) @ ''00000000''"
    by (simp add: encode_def concat_format_bytes [OF bytes])
  from assms(2,3) have len: "length ?xs = h * w"
    by (simp add: valid_image_def)
  have e: "lsb_embed st cover_image secret_data = (st @ [?stego], Inr (length st))"
    using lsb_embed_gray [OF assms(1,2,3)] assms(5) L by simp
  have v: "valid_image ?stego"
    using len by (simp add: valid_image_def length_written)
  have "map str_lsb (data ?stego) = ?bd @ map str_lsb (drop (length ?bd) ?xs)"
    using written_bits [of ?bd ?xs] encode_chars [of secret_data] assms(5) L len by simp
  then have bits: "map str_lsb (data ?stego)
      = concat (map big_endian_8 secret_data) @ ''00000000'' @ map str_lsb (drop (length ?bd) ?xs)"
    by (simp only: bd append_assoc)
  have "scan_bits (map str_lsb (data ?stego)) [] = Inl secret_data"
    unfolding bits
    using scan_bits_payload [of "[]" secret_data] assms(4) decode_bytes_big_endian [OF bytes]
    by simp
  then have "lsb_extract ?stego = secret_data"
    using lsb_extract_gray [of ?stego h w] v by simp
  with e show ?thesis by simp
qed

text \<open>The specification's example: an 8 by 8 grayscale image of value 128 and the
  payload \<open>A\<close>. Sixteen bits go into the first sixteen pixels, and \<open>extract\<close>
  returns \<open>A\<close>.\<close>

lemma lsb_gray_example:
  "lsb_embed [uniform_image (Gray 8 8) 128] 0 [65]
     = ([uniform_image (Gray 8 8) 128,
         \<lparr>shape = Gray 8 8,
          data = [128, 129, 128, 128, 128, 128, 128, 129] @ replicate 56 128\<rparr>], Inr 1)
   \<and> lsb_extract \<lparr>shape = Gray 8 8,
          data = [128, 129, 128, 128, 128, 128, 128, 129] @ replicate 56 128\<rparr> = [65]"
  by code_simp

text \<open>
  C1 fails on colour images. \<open>extract\<close> tests for the terminator after each pixel,
  where a colour pixel has added three bits, so the test \<open>len(binary_data) % 8 == 0\<close>
  only passes every 24 bits. On an 8 by 8 colour image of value 128 with the payload
  \<open>A\<close>, the terminator ends at bit 16 and is passed over; at bit 24 the last eight bits
  are the cover's zero bits, and \<open>extract\<close> returns \<open>A\<close> followed by the character
  of code 0.
\<close>

theorem lsb_color_round_trip_fails:
  "snd (lsb_embed [uniform_image (Color 8 8) 128] 0 [65]) = Inr 1
   \<and> lsb_extract (fst (lsb_embed [uniform_image (Color 8 8) 128] 0 [65]) ! 1) = [65, 0]"
  by code_simp

section \<open>Threshold relaxation\<close>

lemma sum_list_mask_mono:
  "t1 \<le> t2 \<Longrightarrow>
   sum_list (create_embedding_mask g t2) \<le> sum_list (create_embedding_mask g t1)"
  unfolding create_embedding_mask_def by (rule sum_list_mono) simp

lemma capacity_mono:
  "t1 \<le> t2 \<Longrightarrow>
   available_capacity_of shp (create_embedding_mask g t2)
     \<le> available_capacity_of shp (create_embedding_mask g t1)"
  using sum_list_mask_mono [of t1 t2 g]
  by (simp add: available_capacity_of_def split: shape.split)

lemma relax_loop_props:
  "relax_loop g shp L (t, m, c) = (t', m', c') \<Longrightarrow>
   m = create_embedding_mask g t \<Longrightarrow> c = available_capacity_of shp m \<Longrightarrow>
   m' = create_embedding_mask g t' \<and> c' = available_capacity_of shp m'
   \<and> t' \<le> t \<and> (\<exists>j. t - t' = 5 * int j) \<and> \<not> (c' < L \<and> t' > 0)
   \<and> (t' \<noteq> t \<longrightarrow> - 5 < t')"
proof (induction "nat t" arbitrary: t m c rule: less_induct)
  case less
  show ?case
  proof (cases "c < L \<and> t > 0")
    case False
    with less.prems show ?thesis
      by (subst (asm) relax_loop.simps) auto
  next
    case True
    let ?t = "t - 5"
    let ?m = "create_embedding_mask g ?t"
    from True less.prems(1)
    have run: "relax_loop g shp L (?t, ?m, available_capacity_of shp ?m) = (t', m', c')"
      by (subst (asm) relax_loop.simps) simp
    from True have "nat ?t < nat t" by simp
    from less.hyps [OF this run refl refl]
    have ih: "m' = create_embedding_mask g t'" "c' = available_capacity_of shp m'"
      "t' \<le> ?t" "\<exists>j. ?t - t' = 5 * int j" "\<not> (c' < L \<and> t' > 0)"
      "t' \<noteq> ?t \<longrightarrow> - 5 < t'"
      by simp_all
    from ih(4) obtain j where "?t - t' = 5 * int j" ..
    then have "t - t' = 5 * int (Suc j)" by simp
    then have step: "\<exists>j. t - t' = 5 * int j" ..
    from True ih(6) have "- 5 < t'" by (cases "t' = ?t") simp_all
    with ih step show ?thesis by simp
  qed
qed

text \<open>For a requested threshold that is a multiple of 5 and not negative, the loop
  ends at a threshold between 0 and the requested one, a multiple of 5 below it, and
  line 102 raises exactly when the capacity at threshold 0 is too small.\<close>

lemma select_mask_multiple_of_5:
  assumes "threshold = 5 * int k"
  shows "(select_mask g shp L threshold = Inl CapacityError
            \<longleftrightarrow> available_capacity_of shp (create_embedding_mask g 0) < L)
         \<and> (select_mask g shp L threshold = Inr (t', m') \<longrightarrow>
              0 \<le> t' \<and> t' \<le> threshold \<and> (\<exists>j. threshold - t' = 5 * int j)
              \<and> m' = create_embedding_mask g t' \<and> L \<le> available_capacity_of shp m')"
proof (cases "available_capacity_of shp (create_embedding_mask g threshold) < L")
  case False
  then have s: "select_mask g shp L threshold = Inr (threshold, create_embedding_mask g threshold)"
    by (simp add: select_mask_def Let_def)
  from assms have "0 \<le> threshold" by simp
  from capacity_mono [OF this, of shp g] False
  have "\<not> available_capacity_of shp (create_embedding_mask g 0) < L" by simp
  with s False assms show ?thesis by auto
next
  case True
  obtain t1 m1 c1 where run:
    "relax_loop g shp L (threshold, create_embedding_mask g threshold,
        available_capacity_of shp (create_embedding_mask g threshold)) = (t1, m1, c1)"
    by (metis prod_cases3)
  note p = relax_loop_props [OF run refl refl]
  from p obtain j where j: "threshold - t1 = 5 * int j" by blast
  with assms have "t1 = 5 * (int k - int j)" by simp
  moreover from p True have "- 5 < t1" by (cases "t1 = threshold") (use assms in auto)
  ultimately have nonneg: "0 \<le> t1" by simp
  have s: "select_mask g shp L threshold
             = (if c1 < L then Inl CapacityError else Inr (t1, m1))"
    using True run by (simp add: select_mask_def Let_def)
  show ?thesis
  proof (cases "c1 < L")
    case True
    with p nonneg have "t1 = 0" by simp
    with p True s show ?thesis by simp
  next
    case False
    from capacity_mono [OF nonneg, of shp g] p False
    have "\<not> available_capacity_of shp (create_embedding_mask g 0) < L" by simp
    with s False p nonneg j show ?thesis by auto
  qed
qed

text \<open>
  C5 fails for a requested threshold that is not a multiple of 5. On a uniform 4 by 4
  grayscale image the gradient is 0 everywhere, so the mask at threshold 0 is empty and
  its capacity 0 is too small for the 16 bits of the payload \<open>A\<close>. Called with
  threshold 3, the loop steps from 3 to -2, where every pixel passes
  \<open>gradient > -2\<close>; \<open>embed\<close> succeeds with the mask of all pixels. Called with
  threshold 5 it stops at 0 and raises.
\<close>

theorem sobel_embed_steps_below_zero:
  "available_capacity_of (Gray 4 4)
      (create_embedding_mask (uniform_gradient (uniform_image (Gray 4 4) 128)) 0) = 0
   \<and> length (encode [65]) = 16
   \<and> select_mask (uniform_gradient (uniform_image (Gray 4 4) 128)) (Gray 4 4) 16 3
       = Inr (- 2, replicate 16 1)
   \<and> snd (sobel_embed uniform_gradient [uniform_image (Gray 4 4) 128] 0 [65] 3) = Inr 1
   \<and> select_mask (uniform_gradient (uniform_image (Gray 4 4) 128)) (Gray 4 4) 16 5
       = Inl CapacityError"
  by code_simp


end